theory Spec2Isabelle
  imports Main "HOL-Library.Word"
begin

section \<open>bprint: binary layout specifier, print template and record loop\<close>

text \<open>
  A shallow embedding of \<^verbatim>\<open>src/bprint.go\<close>. Go strings are byte sequences and are
  modelled as \<^typ>\<open>string\<close> (a list of 8-bit characters). Go's \<^verbatim>\<open>int\<close> is taken to be
  the 64-bit signed integer of the usual platforms: it is modelled as \<^typ>\<open>int\<close> with
  the two's complement wrap-around written out after each arithmetic operation.
  A \<^verbatim>\<open>panic\<close> is a value of the type \<open>panic\<close>, returned as \<open>Inl\<close>.
\<close>

subsection \<open>Machine integers\<close>

definition wrap64 :: "int \<Rightarrow> int" where
  "wrap64 k = (k + 2 ^ 63) mod 2 ^ 64 - 2 ^ 63"

definition maxInt :: int where
  "maxInt = 2 ^ 63 - 1"

text \<open>
  The largest allocation the Go runtime grants on these platforms (\<^verbatim>\<open>maxAlloc\<close>, with
  48 bits of heap address): a larger one panics with \<^verbatim>\<open>makeslice: len out of range\<close>.
\<close>

definition maxAlloc :: int where
  "maxAlloc = 2 ^ 48"

subsection \<open>Field types and the descriptor table\<close>

text \<open>
  \<^verbatim>\<open>type intType byte\<close> with the constants \<^verbatim>\<open>I8 .. U64\<close> (0 to 7) and
  \<^verbatim>\<open>noType\<close> (255); no other value of the type is ever built.
\<close>

datatype intType = I8 | I16 | I32 | I64 | U8 | U16 | U32 | U64 | noType

record intDesc =
  typeId :: intType
  size :: int

definition descCharMap :: "char \<rightharpoonup> intDesc" where
  "descCharMap = map_of
     [(CHR ''c'', \<lparr>typeId = I8, size = 1\<rparr>),
      (CHR ''s'', \<lparr>typeId = I16, size = 2\<rparr>),
      (CHR ''l'', \<lparr>typeId = I32, size = 4\<rparr>),
      (CHR ''q'', \<lparr>typeId = I64, size = 8\<rparr>),
      (CHR ''C'', \<lparr>typeId = U8, size = 1\<rparr>),
      (CHR ''S'', \<lparr>typeId = U16, size = 2\<rparr>),
      (CHR ''L'', \<lparr>typeId = U32, size = 4\<rparr>),
      (CHR ''Q'', \<lparr>typeId = U64, size = 8\<rparr>)]"

definition isDigit :: "char \<Rightarrow> bool" where
  "isDigit b \<longleftrightarrow> (48::nat) \<le> of_char b \<and> (of_char b :: nat) \<le> 57"

text \<open>The size in bytes of the Go type behind each constant, as \<^verbatim>\<open>binary.Read\<close> takes it.\<close>

definition width :: "intType \<Rightarrow> int" where
  "width t = (case t of I8 \<Rightarrow> 1 | I16 \<Rightarrow> 2 | I32 \<Rightarrow> 4 | I64 \<Rightarrow> 8
                      | U8 \<Rightarrow> 1 | U16 \<Rightarrow> 2 | U32 \<Rightarrow> 4 | U64 \<Rightarrow> 8 | noType \<Rightarrow> - 1)"

subsection \<open>Panics\<close>

datatype panic =
    RepeatWithoutSpecifier
      \<comment> \<open>"Data specifier error: repeat number without previous data specifier"\<close>
  | SpecifierNotSupported char
      \<comment> \<open>"Data specifier '%c' not supported"\<close>
  | SliceBoundsOutOfRange int
      \<comment> \<open>the runtime error of a slice expression \<^verbatim>\<open>s[:k]\<close> with \<open>k\<close> out of range\<close>
  | IndexOutOfRange int
      \<comment> \<open>the runtime error of an index expression \<^verbatim>\<open>s[i]\<close> with \<open>i\<close> out of range\<close>
  | AtoiSyntax string
      \<comment> \<open>the syntax error of \<^verbatim>\<open>strconv.Atoi\<close>, passed to \<^verbatim>\<open>panic\<close>\<close>
  | AtoiOutOfRange string
      \<comment> \<open>the range error of \<^verbatim>\<open>strconv.Atoi\<close>, passed to \<^verbatim>\<open>panic\<close>\<close>
  | NegativeRepeatCount
      \<comment> \<open>the panic of \<^verbatim>\<open>strings.Repeat\<close> on a negative count\<close>
  | RepeatCountOverflow
      \<comment> \<open>the panic of \<^verbatim>\<open>strings.Repeat\<close> when the length of the result overflows\<close>
  | MakesliceLenOutOfRange
      \<comment> \<open>the runtime error of an allocation above \<^verbatim>\<open>maxAlloc\<close>, "makeslice: len out of range"\<close>
  | FieldsNotMatch nat nat
      \<comment> \<open>"Binary spec has %d fields, print fmt has %d fields. Not match."\<close>

subsection \<open>The layout compiler \<^verbatim>\<open>parseBinaryFmtSpec\<close>\<close>

text \<open>
  The inner loop \<^verbatim>\<open>for i := 0; i < n; i++ { formatDesc = append(formatDesc, t) }\<close>.
  The counter stays below \<open>n\<close>, so its increment never wraps.
\<close>

function appendLoop :: "int \<Rightarrow> int \<Rightarrow> intType \<Rightarrow> intType list \<Rightarrow> intType list" where
  "appendLoop i n t fd = (if i < n then appendLoop (i + 1) n t (fd @ [t]) else fd)"
  by pat_completeness auto
termination
  by (relation "measure (\<lambda>(i, n, t, fd). nat (n - i))") auto

declare appendLoop.simps [simp del]

text \<open>
  The state of the scan: \<^verbatim>\<open>formatDesc\<close>, \<^verbatim>\<open>recSize\<close>, \<^verbatim>\<open>repeatNum\<close> and
  \<^verbatim>\<open>prevDesc\<close>.
\<close>

type_synonym scan = "intType list \<times> int \<times> int \<times> intDesc"

fun scanSpec :: "string \<Rightarrow> scan \<Rightarrow> panic + scan" where
  "scanSpec [] st = Inr st"
| "scanSpec (b # bs) (fd, rs, rn, pd) =
     (case descCharMap b of
        Some desc \<Rightarrow>
          (let (fd1, rs1, rn1) =
                 (if rn \<noteq> 0
                  then (appendLoop 0 (wrap64 (rn - 1)) (typeId pd) fd,
                        wrap64 (rs + wrap64 (wrap64 (rn - 1) * size pd)),
                        0)
                  else (fd, rs, rn))
           in scanSpec bs (fd1 @ [typeId desc], wrap64 (rs1 + size desc), rn1, desc))
      | None \<Rightarrow>
          if isDigit b then
            (if typeId pd = noType then Inl RepeatWithoutSpecifier
             else scanSpec bs
                    (fd, rs, wrap64 (wrap64 (wrap64 (rn * 10) + int (of_char b)) - 48), pd))
          else Inl (SpecifierNotSupported b))"

definition parseBinaryFmtSpec :: "string \<Rightarrow> panic + (intType list \<times> int)" where
  "parseBinaryFmtSpec binFmt =
     (case scanSpec binFmt ([], 0, 0, \<lparr>typeId = noType, size = - 1\<rparr>) of
        Inl e \<Rightarrow> Inl e
      | Inr (fd, rs, rn, pd) \<Rightarrow>
          Inr (appendLoop 0 (wrap64 (rn - 1)) (typeId pd) fd,
               if rn \<noteq> 0 then wrap64 (rs + wrap64 (wrap64 (rn - 1) * size pd)) else rs))"

subsection \<open>Slices and library functions\<close>

text \<open>
  A slice expression \<^verbatim>\<open>s[lo:hi]\<close> and an index expression \<^verbatim>\<open>s[i]\<close> of Go panic when
  the bounds are out of range; \<^verbatim>\<open>strconv.Atoi\<close> reads an optional sign and decimal
  digits and fails on anything else and on a value outside \<^verbatim>\<open>int\<close>. These are functions
  of the Go language and library, written here from their documentation.

  \<^verbatim>\<open>strings.Repeat\<close> returns the empty string for the count 0 and the string itself for
  the count 1; it panics on a negative count and when the length of the result
  overflows \<^verbatim>\<open>int\<close>; the repetition of the empty string is empty; otherwise it
  allocates the result, and the runtime answers a length above \<^verbatim>\<open>maxAlloc\<close> with a
  panic, which \<^verbatim>\<open>main\<close> recovers like any other. An allocation within that limit is
  taken to succeed, for the result of \<^verbatim>\<open>Repeat\<close> as for the buffer of
  \<^verbatim>\<open>processPrintFmt\<close>: the memory of the machine is not part of the model.
\<close>

definition goSlice :: "string \<Rightarrow> int \<Rightarrow> int \<Rightarrow> panic + string" where
  "goSlice s lo hi =
     (if hi < 0 \<or> int (length s) < hi then Inl (SliceBoundsOutOfRange hi)
      else if lo < 0 \<or> hi < lo then Inl (SliceBoundsOutOfRange lo)
      else Inr (take (nat (hi - lo)) (drop (nat lo) s)))"

definition goIndex :: "string \<Rightarrow> int \<Rightarrow> panic + char" where
  "goIndex s i =
     (if i < 0 \<or> int (length s) \<le> i then Inl (IndexOutOfRange i) else Inr (s ! nat i))"

definition stringsRepeat :: "string \<Rightarrow> int \<Rightarrow> panic + string" where
  "stringsRepeat s count =
     (if count = 0 then Inr []
      else if count = 1 then Inr s
      else if count < 0 then Inl NegativeRepeatCount
      else if maxInt < int (length s) * count then Inl RepeatCountOverflow
      else if s = [] then Inr []
      else if maxAlloc < int (length s) * count then Inl MakesliceLenOutOfRange
      else Inr (concat (replicate (nat count) s)))"

definition digitVal :: "char \<Rightarrow> int" where
  "digitVal d = int (of_char d) - 48"

definition decimalFrom :: "int \<Rightarrow> string \<Rightarrow> int" where
  "decimalFrom a ds = foldl (\<lambda>a d. a * 10 + digitVal d) a ds"

definition strconvAtoi :: "string \<Rightarrow> panic + int" where
  "strconvAtoi s =
     (let neg = (s \<noteq> [] \<and> hd s = CHR ''-'');
          ds = (if s \<noteq> [] \<and> (hd s = CHR ''-'' \<or> hd s = CHR ''+'') then tl s else s)
      in if ds = [] \<or> \<not> list_all isDigit ds then Inl (AtoiSyntax s)
         else if neg then
           (if decimalFrom 0 ds \<le> maxInt + 1 then Inr (- decimalFrom 0 ds)
            else Inl (AtoiOutOfRange s))
         else if decimalFrom 0 ds \<le> maxInt then Inr (decimalFrom 0 ds)
         else Inl (AtoiOutOfRange s))"

subsection \<open>The regular expressions\<close>

text \<open>
  The two patterns of the program are built from character classes, \<^verbatim>\<open>*\<close> and \<^verbatim>\<open>+\<close>
  on a class, concatenation, alternation, capture groups and \<^verbatim>\<open>^\<close>. Go's \<^verbatim>\<open>regexp\<close>
  returns the leftmost match and, among the matches that start there, the one a
  backtracking search finds first: greedy repetition tries the longest run first and an
  alternation tries its left branch first. \<open>run\<close> computes, for a pattern and a position
  in the text, the list of all the ways the pattern can match from there, in the order
  in which the backtracking search tries them; the head of the list is the match of Go.
  A thread is the position reached, the text that remains and the groups captured (the
  last capture of a group first).

  The text is a sequence of bytes. Go's \<^verbatim>\<open>regexp\<close> reads UTF-8 code points, but every
  class of the two patterns either is a set of ASCII characters or excludes only ASCII
  characters, and every match starts or ends at an ASCII character or takes whole runs of
  the others, so the matches found on bytes and on code points have the same number,
  and those of the repeat pattern the same bounds.
\<close>

datatype cls = Lit char | OneOf string | NoneOf string | Digit | NonDigit

fun inCls :: "cls \<Rightarrow> char \<Rightarrow> bool" where
  "inCls (Lit c) x \<longleftrightarrow> x = c"
| "inCls (OneOf cs) x \<longleftrightarrow> x \<in> set cs"
| "inCls (NoneOf cs) x \<longleftrightarrow> x \<notin> set cs"
| "inCls Digit x \<longleftrightarrow> isDigit x"
| "inCls NonDigit x \<longleftrightarrow> \<not> isDigit x"

datatype regex =
    Cls cls | Star cls | Plus cls | Bol
  | Cat regex regex | Alt regex regex | Group nat regex

type_synonym caps = "(nat \<times> nat \<times> nat) list"
type_synonym thread = "nat \<times> string \<times> caps"

fun starRuns :: "cls \<Rightarrow> nat \<Rightarrow> string \<Rightarrow> caps \<Rightarrow> thread list" where
  "starRuns c pos [] cs = [(pos, [], cs)]"
| "starRuns c pos (x # xs) cs =
     (if inCls c x then starRuns c (Suc pos) xs cs else []) @ [(pos, x # xs, cs)]"

fun run :: "regex \<Rightarrow> thread \<Rightarrow> thread list" where
  "run (Cls c) (pos, rest, cs) =
     (case rest of [] \<Rightarrow> [] | x # xs \<Rightarrow> if inCls c x then [(Suc pos, xs, cs)] else [])"
| "run (Star c) (pos, rest, cs) = starRuns c pos rest cs"
| "run (Plus c) (pos, rest, cs) =
     (case rest of [] \<Rightarrow> [] | x # xs \<Rightarrow> if inCls c x then starRuns c (Suc pos) xs cs else [])"
| "run Bol (pos, rest, cs) = (if pos = 0 then [(pos, rest, cs)] else [])"
| "run (Cat r1 r2) t = concat (map (run r2) (run r1 t))"
| "run (Alt r1 r2) t = run r1 t @ run r2 t"
| "run (Group g r) (pos, rest, cs) =
     map (\<lambda>(pos', rest', cs'). (pos', rest', (g, pos, pos') # cs')) (run r (pos, rest, cs))"

type_synonym match = "nat \<times> nat \<times> caps"

fun search :: "regex \<Rightarrow> nat \<Rightarrow> string \<Rightarrow> match option" where
  "search r pos [] =
     (case run r (pos, [], []) of [] \<Rightarrow> None | (e, _, cs) # _ \<Rightarrow> Some (pos, e, cs))"
| "search r pos (x # xs) =
     (case run r (pos, x # xs, []) of
        [] \<Rightarrow> search r (Suc pos) xs
      | (e, _, cs) # _ \<Rightarrow> Some (pos, e, cs))"

text \<open>
  \<^verbatim>\<open>%[^cdxo%]*[cdxo]\<close>, the conversion directive of both patterns; the pattern of
  \<^verbatim>\<open>processPrintFmt\<close>, \<^verbatim>\<open>(%[^cdxo%]*[cdxo])([^\d]*)(\d+)#\<close>; and the pattern of
  \<^verbatim>\<open>countPrintFmtSpec\<close>, \<^verbatim>\<open>([^%]{1}%[^cdxo%]*[cdxo]|^%[^cdxo%]*[cdxo])\<close>. Both
  patterns are constants that compile, so the \<^verbatim>\<open>panic(err)\<close> after
  \<^verbatim>\<open>regexp.Compile\<close> is never reached.
\<close>

definition specRe :: regex where
  "specRe = Cat (Cls (Lit (CHR ''%''))) (Cat (Star (NoneOf ''cdxo%'')) (Cls (OneOf ''cdxo'')))"

definition repeatPat :: regex where
  "repeatPat =
     Cat (Group 1 specRe)
       (Cat (Group 2 (Star NonDigit)) (Cat (Group 3 (Plus Digit)) (Cls (Lit (CHR ''#'')))))"

definition countPat :: regex where
  "countPat = Group 1 (Alt (Cat (Cls (NoneOf ''%'')) specRe) (Cat Bol specRe))"

text \<open>
  The loop behind \<^verbatim>\<open>FindAllStringSubmatchIndex\<close> and \<^verbatim>\<open>FindAllStringIndex\<close> with
  \<^verbatim>\<open>n = -1\<close>: search from \<open>pos\<close>; after a match continue at its end; after an empty
  match move one character on, and drop an empty match that starts where the match
  before ended. (The library also stops after \<open>length s + 1\<close> matches, which is the
  largest number there can be.) \<^verbatim>\<open>^\<close> holds at the start of the text only, also when
  the search starts further on.
\<close>

function allMatches :: "regex \<Rightarrow> string \<Rightarrow> nat \<Rightarrow> int \<Rightarrow> match list" where
  "allMatches re s pos prevMatchEnd =
     (if pos \<le> length s then
        (case search re pos (drop pos s) of
           None \<Rightarrow> []
         | Some (b, e, cs) \<Rightarrow>
             (if e = pos
              then (if int b = prevMatchEnd then [] else [(b, e, cs)])
                   @ allMatches re s (pos + 1) (int e)
              else (b, e, cs) # allMatches re s e (int e)))
      else [])"
  by pat_completeness auto
termination
proof (relation "measure (\<lambda>(re, s, pos, prevMatchEnd). Suc (length s) - pos)")
  have star: "p \<le> p'" if "(p', t) \<in> set (starRuns c p rest cs)" for c p rest cs p' t
    using that by (induction c p rest cs rule: starRuns.induct) (auto split: if_splits)
  have thread: "p \<le> p'" if "(p', t) \<in> set (run r (p, rest, cs))" for r p rest cs p' t
    using that
  proof (induction r arbitrary: p rest cs p' t)
    case (Cat r1 r2)
    then obtain q rest1 cs1 where "(q, rest1, cs1) \<in> set (run r1 (p, rest, cs))"
      and "(p', t) \<in> set (run r2 (q, rest1, cs1))" by auto
    with Cat.IH(1) [of q "(rest1, cs1)" p rest cs] Cat.IH(2) [of p' t q rest1 cs1]
    show ?case by simp
  qed (auto split: list.splits if_splits dest: star)
  have first: "p \<le> e" if "run r (p, rest, []) = (e, t) # ts" for r p rest e t ts
    using thread [of e t r p rest "[]"] that by simp
  have found: "pos \<le> e" if "search r pos rest = Some (b, e, cs)" for r pos rest b e cs
    using that
  proof (induction r pos rest rule: search.induct)
    case (1 r pos)
    then show ?case by (auto split: list.splits dest: first)
  next
    case (2 r pos x xs)
    show ?case
    proof (cases "run r (pos, x # xs, [])")
      case Nil
      with 2 show ?thesis by fastforce
    next
      case (Cons t ts)
      with 2(2) show ?thesis by (auto split: prod.splits dest: first)
    qed
  qed
  show "wf (measure (\<lambda>(re, s, pos, prevMatchEnd). Suc (length s) - pos))" by simp
  show "((re, s, pos + 1, int e), re, s, pos, prevMatchEnd)
          \<in> measure (\<lambda>(re, s, pos, prevMatchEnd). Suc (length s) - pos)"
    if "pos \<le> length s" for re s pos prevMatchEnd e
    using that by simp
  show "((re, s, e, int e), re, s, pos, prevMatchEnd)
          \<in> measure (\<lambda>(re, s, pos, prevMatchEnd). Suc (length s) - pos)"
    if "pos \<le> length s" and "search re pos (drop pos s) = Some m" and "(b, y) = m"
      and "(e, cs) = y" and "e \<noteq> pos"
    for re s pos prevMatchEnd m b y e cs
    using found [of re pos "drop pos s" b e cs] that by auto
qed

declare allMatches.simps [simp del]

text \<open>
  The index slice of a match: start and end of the match, then start and end of each
  group, \<open>-1\<close> for a group that took no part.
\<close>

definition submatchIndex :: "nat \<Rightarrow> match \<Rightarrow> int list" where
  "submatchIndex n m = (case m of (b, e, cs) \<Rightarrow>
     [int b, int e] @
     concat (map (\<lambda>g. case map_of cs g of
                          Some (gb, ge) \<Rightarrow> [int gb, int ge]
                        | None \<Rightarrow> [- 1, - 1]) [1..<Suc n]))"

definition findAllStringSubmatchIndex :: "regex \<Rightarrow> nat \<Rightarrow> string \<Rightarrow> int list list" where
  "findAllStringSubmatchIndex re n s = map (submatchIndex n) (allMatches re s 0 (- 1))"

definition findAllStringIndex :: "regex \<Rightarrow> string \<Rightarrow> int list list" where
  "findAllStringIndex re s = map (submatchIndex 0) (allMatches re s 0 (- 1))"

subsection \<open>The template functions\<close>

text \<open>A panic ends the computation: \<open>bindP\<close> passes it on.\<close>

definition bindP :: "panic + 'a \<Rightarrow> ('a \<Rightarrow> panic + 'b) \<Rightarrow> panic + 'b" where
  "bindP m f = (case m of Inl e \<Rightarrow> Inl e | Inr x \<Rightarrow> f x)"

definition repeatWithSep :: "string \<Rightarrow> string \<Rightarrow> int \<Rightarrow> panic + string" where
  "repeatWithSep rep sep cnt =
     bindP (stringsRepeat (rep @ sep) cnt) (\<lambda>printFmt.
       goSlice printFmt 0 (int (length printFmt) - int (length sep)))"

definition generatePrintFmt :: "int \<Rightarrow> string \<Rightarrow> panic + string" where
  "generatePrintFmt cnt sep = repeatWithSep ''%02x'' sep cnt"

text \<open>
  The loop of \<^verbatim>\<open>processPrintFmt\<close> over the matches, with \<^verbatim>\<open>prevIdx\<close> and the buffer.
  Each \<open>v\<close> is the index slice of a match of the repeat pattern, which has eight entries.
\<close>

fun expandLoop :: "string \<Rightarrow> int list list \<Rightarrow> int \<Rightarrow> string \<Rightarrow> panic + string" where
  "expandLoop printFmt [] prevIdx buf =
     bindP (goSlice printFmt prevIdx (int (length printFmt))) (\<lambda>t. Inr (buf @ t))"
| "expandLoop printFmt (v # mat) prevIdx buf =
     bindP (goSlice printFmt prevIdx (v ! 0)) (\<lambda>lit.
     bindP (if 0 < v ! 0
            then bindP (goIndex printFmt (v ! 0 - 1)) (\<lambda>c. Inr (c = CHR ''%''))
            else Inr False) (\<lambda>afterPercent.
       if afterPercent then
         bindP (goSlice printFmt (v ! 0) (v ! 1)) (\<lambda>whole.
           expandLoop printFmt mat (v ! 1) (buf @ lit @ whole))
       else
         bindP (goSlice printFmt (v ! 2) (v ! 3)) (\<lambda>spec.
         bindP (goSlice printFmt (v ! 4) (v ! 5)) (\<lambda>sep.
         bindP (goSlice printFmt (v ! 6) (v ! 7)) (\<lambda>cntStr.
         bindP (strconvAtoi cntStr) (\<lambda>cnt.
         bindP (repeatWithSep spec (if sep = [] then '' '' else sep) cnt) (\<lambda>r.
           expandLoop printFmt mat (v ! 1) (buf @ lit @ r))))))))"

definition processPrintFmt :: "string \<Rightarrow> panic + string" where
  "processPrintFmt printFmt =
     (let mat = findAllStringSubmatchIndex repeatPat 3 printFmt
      in if mat = [] then Inr printFmt else expandLoop printFmt mat 0 [])"

definition countPrintFmtSpec :: "string \<Rightarrow> nat" where
  "countPrintFmtSpec printFmt = length (findAllStringIndex countPat printFmt)"

subsection \<open>Reading the input\<close>

text \<open>
  The input is a file or the standard input behind a \<^verbatim>\<open>bufio.Reader\<close>: the bytes that
  can still be read and what follows them, the end of the file (\<open>None\<close>) or a read error
  with its message. \<^verbatim>\<open>binary.Read\<close> reads the bytes of one value with \<^verbatim>\<open>io.ReadFull\<close>:
  when not all of them are there, the error is the read error if there is one, \<^verbatim>\<open>io.EOF\<close>
  when no byte was read and \<^verbatim>\<open>io.ErrUnexpectedEOF\<close> when some were; the variable is
  then left as it was. The byte order is little endian.
\<close>

type_synonym byte = "8 word"

datatype ioErr = EOF | ErrUnexpectedEOF | ErrOther string

record reader =
  bytes :: "byte list"
  failure :: "string option"

definition readFull :: "reader \<Rightarrow> nat \<Rightarrow> (ioErr + byte list) \<times> reader" where
  "readFull rd k =
     (if k \<le> length (bytes rd)
      then (Inr (take k (bytes rd)), rd\<lparr>bytes := drop k (bytes rd)\<rparr>)
      else (Inl (case failure rd of
                   Some msg \<Rightarrow> ErrOther msg
                 | None \<Rightarrow> if bytes rd = [] then EOF else ErrUnexpectedEOF),
            rd\<lparr>bytes := []\<rparr>))"

definition signed :: "intType \<Rightarrow> bool" where
  "signed t \<longleftrightarrow> t \<in> {I8, I16, I32, I64}"

definition leUint :: "byte list \<Rightarrow> int" where
  "leUint bs = foldr (\<lambda>b acc. uint b + 256 * acc) bs 0"

definition decode :: "intType \<Rightarrow> byte list \<Rightarrow> int" where
  "decode t bs =
     (if signed t \<and> 2 ^ (8 * length bs - 1) \<le> leUint bs
      then leUint bs - 2 ^ (8 * length bs) else leUint bs)"

text \<open>
  A value of the slice \<^verbatim>\<open>data\<close>: nothing yet, or an integer of one of the eight types
  (\<open>GoInt\<close> is an \<^verbatim>\<open>int\<close>, for the offset and the record count). The eight global
  variables \<^verbatim>\<open>i8 .. u64\<close> are a function from the type to the value. \<^verbatim>\<open>readData\<close>
  stores the variable into \<^verbatim>\<open>data[i]\<close> also after a failed read; \<^verbatim>\<open>main\<close> gives it a
  slice with one entry for each field, so the index is in range.
\<close>

datatype val = Nil | IntV intType int | GoInt int

type_synonym globals = "intType \<Rightarrow> int"

fun readFields ::
  "intType list \<Rightarrow> nat \<Rightarrow> reader \<Rightarrow> globals \<Rightarrow> val list
     \<Rightarrow> nat \<times> ioErr option \<times> val list \<times> reader \<times> globals" where
  "readFields [] i rd g data = (i, None, data, rd, g)"
| "readFields (v # vs) i rd g data =
     (if v = noType then readFields vs (Suc i) rd g data
      else
        (case readFull rd (nat (width v)) of
           (Inr bs, rd') \<Rightarrow>
             readFields vs (Suc i) rd' (g(v := decode v bs))
               (data[i := IntV v (decode v bs)])
         | (Inl e, rd') \<Rightarrow> (i, Some e, data[i := IntV v (g v)], rd', g)))"

definition readData ::
  "reader \<Rightarrow> globals \<Rightarrow> intType list \<Rightarrow> val list
     \<Rightarrow> nat \<times> ioErr option \<times> val list \<times> reader \<times> globals" where
  "readData rd g formatDesc data = readFields formatDesc 0 rd g data"

subsection \<open>Printing and the main loop\<close>

text \<open>
  The standard output is a list of calls: \<^verbatim>\<open>Printf\<close> with its format and operands, and
  the \<^verbatim>\<open>Println\<close> calls of the program. \<open>main\<close> returns the output and the exit
  status, or \<open>None\<close> when the loop never ends (a layout without fields reads nothing
  and never reaches the end of the input). Flag parsing is outside the model: the
  options are given. The file argument is the error of \<^verbatim>\<open>os.Open\<close> or the reader.
\<close>

record opt =
  printRecordCnt :: bool
  printOffset :: bool
  printVersion :: bool
  binaryFmt :: string
  printFmt :: string

datatype out =
    Printf string "val list"
  | PrintlnEOF
  | PrintlnReadErr ioErr
  | PrintlnPanic panic
  | PrintlnOpenErr string
  | PrintlnVersion

record state =
  recordCnt :: int
  offSet :: int
  scratch :: globals
  stdout :: "out list"

definition offsetFmt :: string where
  "offsetFmt = ''%07x ''"

definition newline :: string where
  "newline = [CHR 0x0A]"

definition printData :: "opt \<Rightarrow> string \<Rightarrow> val list \<Rightarrow> state \<Rightarrow> state" where
  "printData opt pf data st =
     st\<lparr>stdout := stdout st
          @ (if printOffset opt then [Printf offsetFmt [GoInt (offSet st)]] else [])
          @ (if printRecordCnt opt then [Printf ''%d: '' [GoInt (recordCnt st)]] else [])
          @ [Printf pf data]\<rparr>"

partial_function (option) readLoop ::
  "opt \<Rightarrow> string \<Rightarrow> intType list \<Rightarrow> int \<Rightarrow> reader \<Rightarrow> val list \<Rightarrow> state
     \<Rightarrow> (nat \<times> ioErr \<times> val list \<times> state) option" where
  "readLoop opt pf formatDesc recordSize rd data st =
     (case readData rd (scratch st) formatDesc data of
        (n, None, data', rd', g') \<Rightarrow>
          readLoop opt pf formatDesc recordSize rd' data'
            ((printData opt pf data' (st\<lparr>scratch := g', recordCnt := wrap64 (recordCnt st + 1)\<rparr>))
               \<lparr>offSet := wrap64 (offSet st + recordSize)\<rparr>)
      | (n, Some err, data', rd', g') \<Rightarrow> Some (n, err, data', st\<lparr>scratch := g'\<rparr>))"

declare readLoop.simps [code]

definition finalLines :: "opt \<Rightarrow> string \<Rightarrow> nat \<times> ioErr \<times> val list \<times> state \<Rightarrow> out list" where
  "finalLines opt pf r = (case r of (n, err, data, st) \<Rightarrow>
     stdout (if n \<noteq> 0 then printData opt pf (take n data) st
             else if printOffset opt
               then st\<lparr>stdout := stdout st @ [Printf (offsetFmt @ newline) [GoInt (offSet st)]]\<rparr>
               else st)
     @ (if err \<noteq> EOF
        then (if err = ErrUnexpectedEOF then [PrintlnEOF] else [PrintlnReadErr err])
        else []))"

text \<open>
  The part of \<^verbatim>\<open>main\<close> between opening the input and the loop: the layout, the
  template (the default one when none is given), its expansion, and the comparison of
  the two counts.
\<close>

definition prepare :: "opt \<Rightarrow> panic + (intType list \<times> int \<times> string)" where
  "prepare opt =
     bindP (parseBinaryFmtSpec (binaryFmt opt)) (\<lambda>(formatDesc, recordSize).
     bindP (if printFmt opt = [] then generatePrintFmt (int (length formatDesc)) '' ''
            else Inr (printFmt opt)) (\<lambda>pf0.
     bindP (processPrintFmt pf0) (\<lambda>pf1.
       if countPrintFmtSpec pf1 \<noteq> length formatDesc
       then Inl (FieldsNotMatch (length formatDesc) (countPrintFmtSpec pf1))
       else Inr (formatDesc, recordSize, pf1 @ newline))))"

definition initState :: state where
  "initState = \<lparr>recordCnt = 0, offSet = 0, scratch = (\<lambda>t. 0), stdout = []\<rparr>"

definition main :: "opt \<Rightarrow> string + reader \<Rightarrow> (out list \<times> nat) option" where
  "main opt file =
     (if printVersion opt then Some ([PrintlnVersion], 0)
      else
        (case file of
           Inl msg \<Rightarrow> Some ([PrintlnOpenErr msg], 1)
         | Inr binReader \<Rightarrow>
             (case prepare opt of
                Inl e \<Rightarrow> Some ([PrintlnPanic e], 1)
              | Inr (formatDesc, recordSize, pf) \<Rightarrow>
                  (case readLoop opt pf formatDesc recordSize binReader
                          (replicate (length formatDesc) Nil) initState of
                     None \<Rightarrow> None
                   | Some r \<Rightarrow> Some (finalLines opt pf r, 0)))))"

text \<open>The options with every flag off.\<close>

definition plain :: "string \<Rightarrow> string \<Rightarrow> opt" where
  "plain bf pf = \<lparr>printRecordCnt = False, printOffset = False, printVersion = False,
                  binaryFmt = bf, printFmt = pf\<rparr>"

subsection \<open>Vocabulary of the claims on the layout compiler\<close>

text \<open>
  A specifier of the well-formed kind is a list of items: a letter and the run of digits
  that follows it.
\<close>

type_synonym item = "char \<times> string"

definition renderItems :: "item list \<Rightarrow> string" where
  "renderItems items = concat (map (\<lambda>(c, ds). c # ds) items)"

definition declared :: "item \<Rightarrow> int" where
  "declared it = (if snd it = [] then 1 else decimalFrom 0 (snd it))"

definition effective :: "item \<Rightarrow> int" where
  "effective it = (if decimalFrom 0 (snd it) = 0 then 1 else decimalFrom 0 (snd it))"

definition wellFormed :: "item list \<Rightarrow> bool" where
  "wellFormed items \<longleftrightarrow>
     (\<forall>it\<in>set items. descCharMap (fst it) \<noteq> None \<and> (\<forall>d\<in>set (snd it). isDigit d))"

definition fieldsOf :: "item list \<Rightarrow> intType list" where
  "fieldsOf items =
     concat (map (\<lambda>it. case descCharMap (fst it) of
                          Some d \<Rightarrow> replicate (nat (effective it)) (typeId d)
                        | None \<Rightarrow> []) items)"

definition bytesOf :: "item list \<Rightarrow> int" where
  "bytesOf items =
     sum_list (map (\<lambda>it. case descCharMap (fst it) of
                            Some d \<Rightarrow> effective it * size d
                          | None \<Rightarrow> 0) items)"

definition declaredBytes :: "item list \<Rightarrow> int" where
  "declaredBytes items =
     sum_list (map (\<lambda>it. case descCharMap (fst it) of
                            Some d \<Rightarrow> declared it * size d
                          | None \<Rightarrow> 0) items)"

definition pending :: "int \<Rightarrow> int" where
  "pending rn = (if rn \<noteq> 0 then rn - 1 else 0)"

definition finish :: "scan \<Rightarrow> intType list \<times> int" where
  "finish st = (case st of (fd, rs, rn, pd) \<Rightarrow>
     (appendLoop 0 (wrap64 (rn - 1)) (typeId pd) fd,
      if rn \<noteq> 0 then wrap64 (rs + wrap64 (wrap64 (rn - 1) * size pd)) else rs))"

subsection \<open>Vocabulary of the claims on the template\<close>

text \<open>
  The same patterns read off the head of a string by hand: the length of the conversion
  directive \<^verbatim>\<open>%[^cdxo%]*[cdxo]\<close> that starts the string, and the end offsets of
  the directive, the separator, the digits and the whole of a repeat shorthand
  \<^verbatim>\<open>(%[^cdxo%]*[cdxo])([^\d]*)(\d+)#\<close> that starts the string.
\<close>

definition specEnd :: "string \<Rightarrow> nat option" where
  "specEnd s =
     (case s of
        [] \<Rightarrow> None
      | x # xs \<Rightarrow>
          if x \<noteq> CHR ''%'' then None
          else (case dropWhile (inCls (NoneOf ''cdxo%'')) xs of
                  [] \<Rightarrow> None
                | l # _ \<Rightarrow>
                    if l \<in> set ''cdxo''
                    then Some (length (takeWhile (inCls (NoneOf ''cdxo%'')) xs) + 2)
                    else None))"

definition repeatEnd :: "string \<Rightarrow> (nat \<times> nat \<times> nat \<times> nat) option" where
  "repeatEnd s =
     (case specEnd s of
        None \<Rightarrow> None
      | Some k1 \<Rightarrow>
          (let k2 = k1 + length (takeWhile (inCls NonDigit) (drop k1 s));
               k3 = k2 + length (takeWhile (inCls Digit) (drop k2 s))
           in if k2 < k3 \<and> k3 < length s \<and> s ! k3 = CHR ''#''
              then Some (k1, k2, k3, Suc k3) else None))"

text \<open>
  The matches of a search, seen from the template: the text of a capture group, whether
  the match follows a literal \<^verbatim>\<open>%\<close>, whether the repeat count of the match is one the
  expansion cannot carry out (zero, or above 1 with a repetition longer than
  \<^verbatim>\<open>maxAlloc\<close>), and what the loop of \<^verbatim>\<open>processPrintFmt\<close> computes for one match.
\<close>

fun ordered :: "nat \<Rightarrow> nat \<Rightarrow> match list \<Rightarrow> bool" where
  "ordered lo hi [] \<longleftrightarrow> True"
| "ordered lo hi ((b, e, cs) # ms) \<longleftrightarrow> lo \<le> b \<and> b \<le> e \<and> e \<le> hi \<and> ordered e hi ms"

definition repeatMatch :: "string \<Rightarrow> match \<Rightarrow> bool" where
  "repeatMatch s m =
     (case m of (b, e, cs) \<Rightarrow>
        b \<le> length s \<and>
        (case repeatEnd (drop b s) of
           None \<Rightarrow> False
         | Some (k1, k2, k3, k4) \<Rightarrow>
             e = b + k4 \<and> cs = [(3, b + k2, b + k3), (2, b + k1, b + k2), (1, b, b + k1)]))"

definition group :: "string \<Rightarrow> match \<Rightarrow> nat \<Rightarrow> string" where
  "group s m g =
     (case m of (b, e, cs) \<Rightarrow>
        (case map_of cs g of None \<Rightarrow> [] | Some (gb, ge) \<Rightarrow> take (ge - gb) (drop gb s)))"

definition escaped :: "string \<Rightarrow> match \<Rightarrow> bool" where
  "escaped s m = (case m of (b, e, cs) \<Rightarrow> 0 < b \<and> s ! (b - 1) = CHR ''%'')"

definition sepOf :: "string \<Rightarrow> match \<Rightarrow> string" where
  "sepOf s m = (if group s m 2 = [] then '' '' else group s m 2)"


definition expansion :: "string \<Rightarrow> match \<Rightarrow> panic + string" where
  "expansion s m =
     bindP (strconvAtoi (group s m 3)) (\<lambda>cnt. repeatWithSep (group s m 1) (sepOf s m) cnt)"

definition joinCopies :: "nat \<Rightarrow> string \<Rightarrow> string \<Rightarrow> string" where
  "joinCopies n conv sep = conv @ concat (replicate (n - 1) (sep @ conv))"

definition digitsHash :: regex where
  "digitsHash = Cat (Group 3 (Plus Digit)) (Cls (Lit (CHR ''#'')))"

definition sepDigitsHash :: regex where
  "sepDigitsHash = Cat (Group 2 (Star NonDigit)) digitsHash"

text \<open>
  The directives of a template that the claims call live: the positions where a
  conversion directive starts and the character before, if there is one, is not
  \<^verbatim>\<open>%\<close>. The flag tells whether the character before is \<^verbatim>\<open>%\<close>.
\<close>

fun liveFrom :: "bool \<Rightarrow> string \<Rightarrow> nat" where
  "liveFrom pp [] = 0"
| "liveFrom pp (x # xs) =
     (if \<not> pp \<and> specEnd (x # xs) \<noteq> None then 1 else 0) + liveFrom (x = CHR ''%'') xs"

definition liveDirectives :: "string \<Rightarrow> nat" where
  "liveDirectives s = liveFrom False s"

text \<open>A match moved \<open>k\<close> characters to the right.\<close>

definition shiftMatch :: "nat \<Rightarrow> match \<Rightarrow> match" where
  "shiftMatch k m =
     (case m of (b, e, cs) \<Rightarrow> (b + k, e + k, map (\<lambda>(g, x, y). (g, x + k, y + k)) cs))"

text \<open>
  The search of \<^verbatim>\<open>processPrintFmt\<close> finds a match that starts at position \<open>k\<close> of the
  template: a place where the pattern could match is not found when it lies inside an
  earlier match.
\<close>

definition matchAt :: "string \<Rightarrow> nat \<Rightarrow> bool" where
  "matchAt s k \<longleftrightarrow> k \<in> set (map fst (allMatches repeatPat s 0 (- 1)))"

subsection \<open>Vocabulary of the claims on the record loop\<close>

text \<open>
  The number of bytes of a list of fields, the values of a list of fields decoded from
  the bytes of a record, and the lines the program prints for one record and for a list
  of full records, given the values of \<^verbatim>\<open>recordCnt\<close> and \<^verbatim>\<open>offSet\<close> before.
\<close>

definition recLen :: "intType list \<Rightarrow> nat" where
  "recLen fd = sum_list (map (\<lambda>t. nat (width t)) fd)"

fun decodeRecord :: "intType list \<Rightarrow> byte list \<Rightarrow> val list" where
  "decodeRecord [] bs = []"
| "decodeRecord (t # ts) bs =
     IntV t (decode t (take (nat (width t)) bs)) # decodeRecord ts (drop (nat (width t)) bs)"

definition lineOf :: "opt \<Rightarrow> string \<Rightarrow> int \<Rightarrow> int \<Rightarrow> val list \<Rightarrow> out list" where
  "lineOf opt pf cnt off vals =
     (if printOffset opt then [Printf offsetFmt [GoInt off]] else [])
     @ (if printRecordCnt opt then [Printf ''%d: '' [GoInt cnt]] else [])
     @ [Printf pf vals]"

fun fullLines ::
  "opt \<Rightarrow> string \<Rightarrow> intType list \<Rightarrow> int \<Rightarrow> int \<Rightarrow> int \<Rightarrow> byte list list \<Rightarrow> out list" where
  "fullLines opt pf fd rs cnt off [] = []"
| "fullLines opt pf fd rs cnt off (c # cs) =
     lineOf opt pf (wrap64 (cnt + 1)) off (decodeRecord fd c)
     @ fullLines opt pf fd rs (wrap64 (cnt + 1)) (wrap64 (off + rs)) cs"

fun countAfter :: "int \<Rightarrow> nat \<Rightarrow> int" where
  "countAfter cnt 0 = cnt"
| "countAfter cnt (Suc k) = countAfter (wrap64 (cnt + 1)) k"

fun offsetAfter :: "int \<Rightarrow> int \<Rightarrow> nat \<Rightarrow> int" where
  "offsetAfter rs off 0 = off"
| "offsetAfter rs off (Suc k) = offsetAfter rs (wrap64 (off + rs)) k"

definition endError :: "string option \<Rightarrow> nat \<Rightarrow> ioErr" where
  "endError f r =
     (case f of Some msg \<Rightarrow> ErrOther msg | None \<Rightarrow> if r = 0 then EOF else ErrUnexpectedEOF)"

text \<open>What the scan keeps true: no field without a type, and a pending count has a type.\<close>

definition scanInv :: "scan \<Rightarrow> bool" where
  "scanInv st =
     (case st of (fd, rs, rn, pd) \<Rightarrow> noType \<notin> set fd \<and> (rn = 0 \<or> typeId pd \<noteq> noType))"

subsection \<open>What \<^verbatim>\<open>fmt.Printf\<close> writes\<close>

text \<open>
  The part of Go's \<^verbatim>\<open>fmt\<close> package that the default template and the two prefixes of a
  line use: text is copied; \<^verbatim>\<open>%%\<close> is a percent sign; a directive is \<^verbatim>\<open>%\<close>, an
  optional flag \<^verbatim>\<open>0\<close>, an optional width and one of the verbs \<^verbatim>\<open>d\<close>, \<^verbatim>\<open>x\<close>, \<^verbatim>\<open>o\<close>. An
  integer is written in base 10, 16 or 8, with its sign in front; under the flag
  \<^verbatim>\<open>0\<close> it is filled with zeros up to the width (one less for a negative number),
  otherwise with spaces on the left. A directive without an operand is written as
  \<^verbatim>\<open>%!verb(MISSING)\<close>, as the package documents for too few arguments. Everything else
  (other flags and verbs, a precision, operands left over) is outside this model:
  the result is \<open>None\<close>.
\<close>

definition digitChar :: "nat \<Rightarrow> char" where
  "digitChar d = ''0123456789abcdef'' ! d"

function natDigits :: "nat \<Rightarrow> nat \<Rightarrow> string" where
  "natDigits b k =
     (if k < b \<or> b < 2 then [digitChar k] else natDigits b (k div b) @ [digitChar (k mod b)])"
  by pat_completeness auto
termination
  by (relation "measure (\<lambda>(b, k). k)") auto

declare natDigits.simps [simp del]

definition fmtInteger :: "bool \<Rightarrow> nat option \<Rightarrow> nat \<Rightarrow> int \<Rightarrow> string" where
  "fmtInteger zero wid base v =
     (let ds = natDigits base (nat \<bar>v\<bar>);
          prec = (case wid of
                    None \<Rightarrow> 0
                  | Some w \<Rightarrow> if zero then (if v < 0 then w - 1 else w) else 0);
          zs = replicate (prec - length ds) (CHR ''0'') @ ds;
          sg = (if v < 0 then CHR ''-'' # zs else zs)
      in case wid of
           None \<Rightarrow> sg
         | Some w \<Rightarrow> replicate (w - length sg) (CHR '' '') @ sg)"

definition fmtVerb :: "bool \<Rightarrow> nat option \<Rightarrow> char \<Rightarrow> val \<Rightarrow> string" where
  "fmtVerb zero wid verb a =
     (let base = (if verb = CHR ''d'' then 10 else if verb = CHR ''x'' then 16 else 8)
      in case a of
           Nil \<Rightarrow> ''%!'' @ [verb] @ ''(<nil>)''
         | IntV t v \<Rightarrow> fmtInteger zero wid base v
         | GoInt v \<Rightarrow> fmtInteger zero wid base v)"

datatype fmtMode = Text | Flags bool | Width bool nat

fun fmtScan :: "fmtMode \<Rightarrow> string \<Rightarrow> val list \<Rightarrow> string option" where
  "fmtScan Text [] args = (if args = [] then Some [] else None)"
| "fmtScan Text (c # cs) args =
     (if c = CHR ''%'' then fmtScan (Flags False) cs args
      else map_option ((#) c) (fmtScan Text cs args))"
| "fmtScan (Flags z) [] args = (if args = [] then Some ''%!(NOVERB)'' else None)"
| "fmtScan (Flags z) (c # cs) args =
     (if c = CHR ''0'' then fmtScan (Flags True) cs args
      else if isDigit c then fmtScan (Width z (nat (digitVal c))) cs args
      else if c = CHR ''%'' \<and> \<not> z then map_option ((#) c) (fmtScan Text cs args)
      else if c \<in> set ''dxo'' then
        (case args of
           [] \<Rightarrow> map_option ((@) (''%!'' @ [c] @ ''(MISSING)'')) (fmtScan Text cs [])
         | a # as \<Rightarrow> map_option ((@) (fmtVerb z None c a)) (fmtScan Text cs as))
      else None)"
| "fmtScan (Width z w) [] args = (if args = [] then Some ''%!(NOVERB)'' else None)"
| "fmtScan (Width z w) (c # cs) args =
     (if isDigit c then fmtScan (Width z (w * 10 + nat (digitVal c))) cs args
      else if c \<in> set ''dxo'' then
        (case args of
           [] \<Rightarrow> map_option ((@) (''%!'' @ [c] @ ''(MISSING)'')) (fmtScan Text cs [])
         | a # as \<Rightarrow> map_option ((@) (fmtVerb z (Some w) c a)) (fmtScan Text cs as))
      else None)"

definition sprintf :: "string \<Rightarrow> val list \<Rightarrow> string option" where
  "sprintf format args = fmtScan Text format args"

text \<open>
  The text of the standard output, for the lines this model covers: the calls of
  \<^verbatim>\<open>Printf\<close> and the two reports of the end of the loop.
\<close>

definition errorText :: "ioErr \<Rightarrow> string" where
  "errorText e = (case e of EOF \<Rightarrow> ''EOF'' | ErrUnexpectedEOF \<Rightarrow> ''unexpected EOF''
                          | ErrOther msg \<Rightarrow> msg)"

fun written :: "out list \<Rightarrow> string option" where
  "written [] = Some []"
| "written (Printf format args # os) =
     (case sprintf format args of
        None \<Rightarrow> None
      | Some t \<Rightarrow> map_option ((@) t) (written os))"
| "written (PrintlnEOF # os) =
     map_option ((@) (''EOF: final data not enough for the last field'' @ newline)) (written os)"
| "written (PrintlnReadErr e # os) =
     map_option ((@) (''While reading data: '' @ errorText e @ newline)) (written os)"
| "written (PrintlnVersion # os) = map_option ((@) (''bprint version 0.1'' @ newline)) (written os)"
| "written (PrintlnPanic p # os) = None"
| "written (PrintlnOpenErr msg # os) =
     map_option ((@) (''While opening file: '' @ msg @ newline)) (written os)"

section \<open>Properties\<close>

subsection \<open>The layout compiler\<close>

lemma appendLoop_eq: "appendLoop i n t fd = fd @ replicate (nat (n - i)) t"
proof (induction i n t fd rule: appendLoop.induct)
  case (1 i n t fd)
  show ?case
  proof (cases "i < n")
    case True
    then have "nat (n - i) = Suc (nat (n - (i + 1)))" by simp
    with True 1 show ?thesis
      by (simp add: appendLoop.simps [of i] replicate_append_same)
  next
    case False
    then show ?thesis by (simp add: appendLoop.simps [of i])
  qed
qed

lemma wrap64_id: "- (2 ^ 63) \<le> k \<Longrightarrow> k < 2 ^ 63 \<Longrightarrow> wrap64 k = k"
  by (simp add: wrap64_def)

lemma wrap64_nonneg: "0 \<le> k \<Longrightarrow> k < 2 ^ 63 \<Longrightarrow> wrap64 k = k"
  by (simp add: wrap64_def)

lemma wrap64_add_left: "wrap64 (wrap64 a + b) = wrap64 (a + b)"
  unfolding wrap64_def by (smt (verit) mod_add_left_eq mod_diff_left_eq diff_add_eq add.commute add.assoc)

lemma wrap64_diff_left: "wrap64 (wrap64 a - b) = wrap64 (a - b)"
  using wrap64_add_left [of a "- b"] by simp

lemma descCharMap_Some:
  assumes "descCharMap c = Some d"
  shows "typeId d \<noteq> noType" and "1 \<le> size d" and "size d \<le> 8" and "width (typeId d) = size d"
    and "\<not> isDigit c"
  using assms by (auto simp: descCharMap_def width_def isDigit_def split: if_splits)

lemma isDigit_no_desc: "isDigit c \<Longrightarrow> descCharMap c = None"
  using descCharMap_Some(5) by (cases "descCharMap c") auto

lemma scanSpec_append:
  "scanSpec (xs @ ys) st = (case scanSpec xs st of Inl e \<Rightarrow> Inl e | Inr st' \<Rightarrow> scanSpec ys st')"
proof (induction xs st rule: scanSpec.induct)
  case (1 st)
  show ?case by simp
next
  case (2 b bs fd rs rn pd)
  show ?case
  proof (cases "descCharMap b")
    case None
    with 2 show ?thesis by auto
  next
    case (Some desc)
    with 2 show ?thesis by (simp split: prod.splits if_splits)
  qed
qed

lemma digitVal_range: "isDigit d \<Longrightarrow> 0 \<le> digitVal d \<and> digitVal d \<le> 9"
  by (auto simp: isDigit_def digitVal_def)

lemma decimalFrom_mono: "\<forall>d\<in>set ds. isDigit d \<Longrightarrow> 0 \<le> a \<Longrightarrow> a \<le> decimalFrom a ds"
proof (induction ds arbitrary: a)
  case Nil
  show ?case by (simp add: decimalFrom_def)
next
  case (Cons d ds)
  from Cons.prems have d: "0 \<le> digitVal d" by (simp add: digitVal_range)
  with Cons.prems have "a \<le> a * 10 + digitVal d" by simp
  moreover have "a * 10 + digitVal d \<le> decimalFrom (a * 10 + digitVal d) ds"
    using Cons.IH [of "a * 10 + digitVal d"] Cons.prems d by simp
  ultimately show ?case by (simp add: decimalFrom_def)
qed

lemma scanSpec_digits:
  assumes "\<forall>d\<in>set ds. isDigit d" and "typeId pd \<noteq> noType" and "0 \<le> rn"
    and "decimalFrom rn ds < 2 ^ 63"
  shows "scanSpec (ds @ rest) (fd, rs, rn, pd) = scanSpec rest (fd, rs, decimalFrom rn ds, pd)"
  using assms
proof (induction ds arbitrary: rn)
  case Nil
  show ?case by (simp add: decimalFrom_def)
next
  case (Cons d ds)
  let ?r = "rn * 10 + digitVal d"
  from Cons.prems have dv: "0 \<le> digitVal d" "isDigit d" by (simp_all add: digitVal_range)
  with Cons.prems have r0: "0 \<le> ?r" by simp
  have dec: "decimalFrom rn (d # ds) = decimalFrom ?r ds" by (simp add: decimalFrom_def)
  have "?r \<le> decimalFrom ?r ds"
    using decimalFrom_mono [of ds ?r] Cons.prems r0 by simp
  with Cons.prems dec have r1: "?r < 2 ^ 63" by simp
  have "wrap64 (wrap64 (wrap64 (rn * 10) + int (of_char d)) - 48) = wrap64 ?r"
    by (simp add: wrap64_add_left wrap64_diff_left digitVal_def add_diff_eq)
  also have "\<dots> = ?r" using r0 r1 by (simp add: wrap64_id)
  finally have step: "wrap64 (wrap64 (wrap64 (rn * 10) + int (of_char d)) - 48) = ?r" .
  have "scanSpec ((d # ds) @ rest) (fd, rs, rn, pd) = scanSpec (ds @ rest) (fd, rs, ?r, pd)"
    using dv Cons.prems step by (simp add: isDigit_no_desc)
  also have "\<dots> = scanSpec rest (fd, rs, decimalFrom ?r ds, pd)"
    using Cons.IH [of ?r] Cons.prems r0 dec by simp
  finally show ?case using dec by simp
qed

lemma parseBinaryFmtSpec_finish:
  "parseBinaryFmtSpec binFmt =
     (case scanSpec binFmt ([], 0, 0, \<lparr>typeId = noType, size = - 1\<rparr>) of
        Inl e \<Rightarrow> Inl e | Inr st \<Rightarrow> Inr (finish st))"
  by (simp add: parseBinaryFmtSpec_def finish_def split: sum.splits prod.splits)

lemma effective_pos: "\<forall>d\<in>set (snd it). isDigit d \<Longrightarrow> 1 \<le> effective it"
  using decimalFrom_mono [of "snd it" 0] by (simp add: effective_def)

lemma effective_pending: "effective it = pending (decimalFrom 0 (snd it)) + 1"
  by (simp add: effective_def pending_def)

lemma bytesOf_nonneg: "wellFormed items \<Longrightarrow> 0 \<le> bytesOf items"
proof (induction items)
  case Nil
  show ?case by (simp add: bytesOf_def)
next
  case (Cons it items)
  from Cons.prems obtain d where d: "descCharMap (fst it) = Some d"
    and dig: "\<forall>d\<in>set (snd it). isDigit d" and wf: "wellFormed items"
    by (auto simp: wellFormed_def)
  have "0 \<le> effective it * size d"
    using effective_pos [OF dig] descCharMap_Some(2) [OF d] by simp
  with Cons.IH [OF wf] d show ?case by (simp add: bytesOf_def)
qed

lemma flush_exact:
  assumes "0 \<le> rs" and "0 \<le> rn" and "rn < 2 ^ 63" and "rn \<noteq> 0 \<longrightarrow> 1 \<le> size pd"
    and "rs + pending rn * size pd < 2 ^ 63"
  shows "appendLoop 0 (wrap64 (rn - 1)) (typeId pd) fd = fd @ replicate (nat (pending rn)) (typeId pd)"
    and "(if rn \<noteq> 0 then wrap64 (rs + wrap64 (wrap64 (rn - 1) * size pd)) else rs)
         = rs + pending rn * size pd"
proof -
  have w: "wrap64 (rn - 1) = rn - 1" using assms by (simp add: wrap64_id)
  show "appendLoop 0 (wrap64 (rn - 1)) (typeId pd) fd = fd @ replicate (nat (pending rn)) (typeId pd)"
    using w by (simp add: appendLoop_eq pending_def)
  show "(if rn \<noteq> 0 then wrap64 (rs + wrap64 (wrap64 (rn - 1) * size pd)) else rs)
         = rs + pending rn * size pd"
  proof (cases "rn = 0")
    case True
    then show ?thesis by (simp add: pending_def)
  next
    case False
    with assms have p: "0 \<le> (rn - 1) * size pd" by simp
    with assms False have "(rn - 1) * size pd < 2 ^ 63" by (simp add: pending_def)
    with p have "wrap64 ((rn - 1) * size pd) = (rn - 1) * size pd" by (simp add: wrap64_id)
    moreover have "wrap64 (rs + (rn - 1) * size pd) = rs + (rn - 1) * size pd"
    proof (rule wrap64_nonneg)
      show "0 \<le> rs + (rn - 1) * size pd" using assms(1) p by simp
      show "rs + (rn - 1) * size pd < 2 ^ 63" using assms(5) False by (simp add: pending_def)
    qed
    ultimately show ?thesis using False w by (simp add: pending_def)
  qed
qed

lemma scanSpec_items:
  assumes "wellFormed items" and "0 \<le> rs" and "0 \<le> rn" and "rn < 2 ^ 63"
    and "rn \<noteq> 0 \<longrightarrow> 1 \<le> size pd"
    and "rs + pending rn * size pd + bytesOf items < 2 ^ 63"
  shows "\<exists>st. scanSpec (renderItems items) (fd, rs, rn, pd) = Inr st \<and>
           finish st = (fd @ replicate (nat (pending rn)) (typeId pd) @ fieldsOf items,
                        rs + pending rn * size pd + bytesOf items)"
  using assms
proof (induction items arbitrary: fd rs rn pd)
  case Nil
  then show ?case
    using flush_exact(1) [where rs = rs and rn = rn and pd = pd and fd = fd]
      flush_exact(2) [where rs = rs and rn = rn and pd = pd]
    by (simp add: renderItems_def finish_def fieldsOf_def bytesOf_def)
next
  case (Cons it items)
  obtain c ds where it: "it = (c, ds)" by (cases it)
  from Cons.prems(1) it obtain d where d: "descCharMap c = Some d"
    and dig: "\<forall>x\<in>set ds. isDigit x" and wf: "wellFormed items"
    by (auto simp: wellFormed_def)
  note dd = descCharMap_Some [OF d]
  let ?k = "decimalFrom 0 ds"
  let ?fd1 = "fd @ replicate (nat (pending rn)) (typeId pd)"
  let ?rs1 = "rs + pending rn * size pd"
  have bo: "bytesOf (it # items) = effective it * size d + bytesOf items"
    using d it by (simp add: bytesOf_def)
  have fo: "fieldsOf (it # items) = replicate (nat (effective it)) (typeId d) @ fieldsOf items"
    using d it by (simp add: fieldsOf_def)
  have ep: "1 \<le> effective it" using effective_pos [of it] dig it by simp
  have ek: "effective it = pending ?k + 1" using effective_pending [of it] it by simp
  have bn: "0 \<le> bytesOf items" by (rule bytesOf_nonneg [OF wf])
  have pn: "0 \<le> pending rn * size pd"
    using Cons.prems by (auto simp: pending_def)
  have es: "effective it \<le> effective it * size d"
    using ep dd(2) by (simp add: mult_le_cancel_left1)
  have k0: "0 \<le> ?k" using decimalFrom_mono [of ds 0] dig by simp
  have "?k \<le> effective it" by (simp add: effective_def it)
  with es bn pn Cons.prems(2,6) bo have k1: "?k < 2 ^ 63" by linarith
  have r1: "?rs1 + size d < 2 ^ 63"
  proof -
    have "size d \<le> effective it * size d" using ep dd(2) by (simp add: mult_le_cancel_right1)
    with bn Cons.prems(6) bo show ?thesis by linarith
  qed
  have r0: "0 \<le> ?rs1" using Cons.prems(2) pn by simp
  have fl: "?rs1 < 2 ^ 63" using r1 dd(2) by linarith
  note fe = flush_exact(1) [OF Cons.prems(2,3,4,5) fl, where fd = fd]
    flush_exact(2) [OF Cons.prems(2,3,4,5) fl]
  have w: "wrap64 (?rs1 + size d) = ?rs1 + size d"
    using r0 r1 dd(2) by (simp add: wrap64_id)
  have step1: "scanSpec (renderItems (it # items)) (fd, rs, rn, pd)
               = scanSpec (ds @ renderItems items) (?fd1 @ [typeId d], ?rs1 + size d, 0, d)"
  proof (cases "rn = 0")
    case True
    then show ?thesis using d it w by (simp add: renderItems_def pending_def)
  next
    case False
    then show ?thesis using d it w fe by (simp add: renderItems_def)
  qed
  have step2: "scanSpec (ds @ renderItems items) (?fd1 @ [typeId d], ?rs1 + size d, 0, d)
               = scanSpec (renderItems items) (?fd1 @ [typeId d], ?rs1 + size d, ?k, d)"
    by (rule scanSpec_digits [OF dig dd(1) _ k1]) simp
  have tot: "?rs1 + size d + pending ?k * size d + bytesOf items
             = ?rs1 + bytesOf (it # items)"
    using bo ek by (simp add: algebra_simps)
  have "\<exists>st. scanSpec (renderItems items) (?fd1 @ [typeId d], ?rs1 + size d, ?k, d) = Inr st \<and>
           finish st = ((?fd1 @ [typeId d]) @ replicate (nat (pending ?k)) (typeId d) @ fieldsOf items,
                        ?rs1 + size d + pending ?k * size d + bytesOf items)"
  proof (rule Cons.IH [OF wf _ k0 k1])
    show "0 \<le> ?rs1 + size d" using r0 dd(2) by simp
    show "?k \<noteq> 0 \<longrightarrow> 1 \<le> size d" using dd(2) by simp
    show "?rs1 + size d + pending ?k * size d + bytesOf items < 2 ^ 63"
      using tot Cons.prems(6) by simp
  qed
  then obtain st where st: "scanSpec (renderItems items) (?fd1 @ [typeId d], ?rs1 + size d, ?k, d) = Inr st"
    and fin: "finish st = ((?fd1 @ [typeId d]) @ replicate (nat (pending ?k)) (typeId d) @ fieldsOf items,
                        ?rs1 + size d + pending ?k * size d + bytesOf items)"
    by blast
  have rep: "[typeId d] @ replicate (nat (pending ?k)) (typeId d) = replicate (nat (effective it)) (typeId d)"
  proof -
    have "0 \<le> pending ?k" using k0 by (simp add: pending_def)
    then have "nat (effective it) = Suc (nat (pending ?k))" using ek by simp
    then show ?thesis by simp
  qed
  have "finish st = (?fd1 @ fieldsOf (it # items), ?rs1 + bytesOf (it # items))"
    using fin tot rep fo by simp
  with step1 step2 st show ?case by simp
qed

lemma parse_items:
  assumes "wellFormed items" and "bytesOf items < 2 ^ 63"
  shows "parseBinaryFmtSpec (renderItems items) = Inr (fieldsOf items, bytesOf items)"
proof -
  have "\<exists>st. scanSpec (renderItems items) ([], 0, 0, \<lparr>typeId = noType, size = - 1\<rparr>) = Inr st \<and>
           finish st = ([] @ replicate (nat (pending 0)) (typeId \<lparr>typeId = noType, size = - 1\<rparr>) @ fieldsOf items,
                        0 + pending 0 * size \<lparr>typeId = noType, size = - 1\<rparr> + bytesOf items)"
    by (rule scanSpec_items [OF assms(1)]) (use assms(2) in \<open>simp_all add: pending_def\<close>)
  then show ?thesis by (auto simp: parseBinaryFmtSpec_finish pending_def)
qed

lemma width_fieldsOf: "wellFormed items \<Longrightarrow> sum_list (map width (fieldsOf items)) = bytesOf items"
proof (induction items)
  case Nil
  show ?case by (simp add: fieldsOf_def bytesOf_def)
next
  case (Cons it items)
  from Cons.prems obtain d where d: "descCharMap (fst it) = Some d"
    and dig: "\<forall>d\<in>set (snd it). isDigit d" and wf: "wellFormed items"
    by (auto simp: wellFormed_def)
  have "sum_list (map width (replicate (nat (effective it)) (typeId d))) = effective it * size d"
    using effective_pos [OF dig] descCharMap_Some(4) [OF d] by (simp add: sum_list_replicate)
  with Cons.IH [OF wf] d show ?case by (simp add: fieldsOf_def bytesOf_def)
qed

lemma length_fieldsOf:
  "wellFormed items \<Longrightarrow> int (length (fieldsOf items)) = sum_list (map effective items)"
proof (induction items)
  case Nil
  show ?case by (simp add: fieldsOf_def)
next
  case (Cons it items)
  from Cons.prems obtain d where d: "descCharMap (fst it) = Some d"
    and dig: "\<forall>d\<in>set (snd it). isDigit d" and wf: "wellFormed items"
    by (auto simp: wellFormed_def)
  with Cons.IH [OF wf] effective_pos [OF dig] show ?case by (simp add: fieldsOf_def)
qed

lemma decimalFrom_zeros: "decimalFrom 0 (replicate k (CHR ''0'')) = 0"
  by (induction k) (simp_all add: decimalFrom_def digitVal_def)

lemma scanSpec_letter_zeros:
  assumes "descCharMap c = Some d"
  shows "scanSpec (c # replicate k (CHR ''0'') @ post) st = scanSpec (c # post) st"
proof -
  obtain fd rs rn pd where st: "st = (fd, rs, rn, pd)" by (cases st)
  have z: "scanSpec (replicate k (CHR ''0'') @ post) (fd', rs', 0, d) = scanSpec post (fd', rs', 0, d)"
    for fd' rs'
    using scanSpec_digits [of "replicate k (CHR ''0'')" d 0 post fd' rs'] descCharMap_Some(1) [OF assms]
    by (simp add: decimalFrom_zeros isDigit_def)
  show ?thesis using assms z by (simp add: st split: prod.splits)
qed

text \<open>
  C4 (amended): the specifier \<^verbatim>\<open>sL2c\<close> compiles to the fields I16, U32, U32, I8 with
  record size 11: the upper-case \<^verbatim>\<open>L\<close> is the unsigned 32-bit type. The table maps
  lower-case letters to the signed and upper-case letters to the unsigned type of
  1, 2, 4 and 8 bytes.
\<close>

theorem sL2c_layout:
  "parseBinaryFmtSpec ''sL2c'' = Inr ([I16, U32, U32, I8], 11) \<and>
   map descCharMap ''cslqCSLQ'' =
     [Some \<lparr>typeId = I8, size = 1\<rparr>, Some \<lparr>typeId = I16, size = 2\<rparr>,
      Some \<lparr>typeId = I32, size = 4\<rparr>, Some \<lparr>typeId = I64, size = 8\<rparr>,
      Some \<lparr>typeId = U8, size = 1\<rparr>, Some \<lparr>typeId = U16, size = 2\<rparr>,
      Some \<lparr>typeId = U32, size = 4\<rparr>, Some \<lparr>typeId = U64, size = 8\<rparr>]"
  by (simp add: parseBinaryFmtSpec_def descCharMap_def isDigit_def wrap64_def appendLoop_eq)

text \<open>
  C4 as stated fails: the two fields of \<^verbatim>\<open>L2\<close> are not the signed I32.
\<close>

theorem sL2c_not_signed:
  "parseBinaryFmtSpec ''sL2c'' \<noteq> Inr ([I16, I32, I32, I8], 11)"
  by (simp add: parseBinaryFmtSpec_def descCharMap_def isDigit_def wrap64_def appendLoop_eq)

text \<open>
  C9: a repeat count written as a run of zeros after a type letter changes nothing.
  Whatever precedes and follows, the specifier compiles exactly as with the bare letter,
  and a letter followed only by zeros compiles to one field of its type, with the
  record size equal to its width.
\<close>

theorem zero_count_as_bare_letter:
  assumes "descCharMap c = Some d"
  shows "parseBinaryFmtSpec (pre @ c # replicate (Suc k) (CHR ''0'') @ post)
           = parseBinaryFmtSpec (pre @ c # post) \<and>
         parseBinaryFmtSpec (c # replicate (Suc k) (CHR ''0'')) = Inr ([typeId d], size d)"
proof
  show "parseBinaryFmtSpec (pre @ c # replicate (Suc k) (CHR ''0'') @ post)
           = parseBinaryFmtSpec (pre @ c # post)"
    by (simp only: parseBinaryFmtSpec_def scanSpec_append [of pre] scanSpec_letter_zeros [OF assms])
  have "parseBinaryFmtSpec (c # replicate (Suc k) (CHR ''0'') @ []) = parseBinaryFmtSpec [c]"
    by (simp only: parseBinaryFmtSpec_def scanSpec_letter_zeros [OF assms])
  also have "\<dots> = Inr ([typeId d], size d)"
    using assms descCharMap_Some(2,3) [OF assms]
    by (simp add: parseBinaryFmtSpec_def appendLoop_eq wrap64_def)
  finally show "parseBinaryFmtSpec (c # replicate (Suc k) (CHR ''0'')) = Inr ([typeId d], size d)"
    by simp
qed

theorem zero_count_as_bare_letter_witness:
  "descCharMap (CHR ''C'') = Some \<lparr>typeId = U8, size = 1\<rparr> \<and>
   parseBinaryFmtSpec ''sC00l'' = parseBinaryFmtSpec ''sCl'' \<and>
   parseBinaryFmtSpec ''sCl'' = Inr ([I16, U8, I32], 7) \<and>
   parseBinaryFmtSpec ''C00'' = Inr ([U8], 1)"
proof -
  have d: "descCharMap (CHR ''C'') = Some \<lparr>typeId = U8, size = 1\<rparr>"
    by (simp add: descCharMap_def)
  have "parseBinaryFmtSpec ''sCl'' = Inr ([I16, U8, I32], 7)"
    by (simp add: parseBinaryFmtSpec_def descCharMap_def isDigit_def wrap64_def appendLoop_eq)
  with d zero_count_as_bare_letter [OF d, of "''s''" 1 "''l''"] show ?thesis
    by (simp add: numeral_2_eq_2)
qed

lemma effective_declared: "0 < declared it \<Longrightarrow> effective it = declared it"
proof (cases "snd it")
  case Nil
  then show ?thesis by (simp add: effective_def declared_def decimalFrom_def)
next
  case (Cons d ds)
  assume "0 < declared it"
  with Cons show ?thesis by (simp add: effective_def declared_def)
qed

lemma declared_items:
  assumes "\<forall>it\<in>set items. 0 < declared it"
  shows "map effective items = map declared items" and "bytesOf items = declaredBytes items"
proof -
  show "map effective items = map declared items"
    using assms by (simp add: effective_declared)
  have "map (\<lambda>it. case descCharMap (fst it) of Some d \<Rightarrow> effective it * size d | None \<Rightarrow> 0) items
        = map (\<lambda>it. case descCharMap (fst it) of Some d \<Rightarrow> declared it * size d | None \<Rightarrow> 0) items"
    using assms by (intro map_cong refl) (auto simp: effective_declared split: option.splits)
  then show "bytesOf items = declaredBytes items"
    unfolding bytesOf_def declaredBytes_def by (rule arg_cong [where f = sum_list])
qed

text \<open>
  C2 (amended): a specifier made of recognized letters, each followed by nothing or by
  a run of digits of value at least 1, compiles, provided the record size stays below
  \<open>2\<^sup>6\<^sup>3\<close>; the record size is the sum of the widths of the fields and the number of
  fields is the sum of the declared repeat counts, a bare letter counting 1.
\<close>

theorem layout_size_and_count:
  assumes "wellFormed items" and "\<forall>it\<in>set items. 0 < declared it"
    and "declaredBytes items < 2 ^ 63"
  shows "\<exists>fd rs. parseBinaryFmtSpec (renderItems items) = Inr (fd, rs) \<and>
           fd = fieldsOf items \<and>
           rs = sum_list (map width fd) \<and>
           rs = declaredBytes items \<and>
           int (length fd) = sum_list (map declared items)"
proof -
  note d = declared_items [OF assms(2)]
  have lt: "bytesOf items < 2 ^ 63" using assms(3) d(2) by simp
  show ?thesis
    using parse_items [OF assms(1) lt] width_fieldsOf [OF assms(1)] length_fieldsOf [OF assms(1)] d
    by simp
qed

theorem layout_size_and_count_witness:
  "wellFormed [(CHR ''q'', []), (CHR ''C'', ''12''), (CHR ''s'', ''3'')] \<and>
   list_all (\<lambda>it. 0 < declared it) [(CHR ''q'', []), (CHR ''C'', ''12''), (CHR ''s'', ''3'')] \<and>
   declaredBytes [(CHR ''q'', []), (CHR ''C'', ''12''), (CHR ''s'', ''3'')] = 26 \<and>
   renderItems [(CHR ''q'', []), (CHR ''C'', ''12''), (CHR ''s'', ''3'')] = ''qC12s3'' \<and>
   parseBinaryFmtSpec ''qC12s3'' = Inr (I64 # replicate 12 U8 @ replicate 3 I16, 26) \<and>
   sum_list (map declared [(CHR ''q'', []), (CHR ''C'', ''12''), (CHR ''s'', ''3'')]) = 16"
proof -
  let ?items = "[(CHR ''q'', []), (CHR ''C'', ''12''), (CHR ''s'', ''3'')]"
  have wf: "wellFormed ?items"
    by (simp add: wellFormed_def descCharMap_def isDigit_def)
  have dc: "map declared ?items = [1, 12, 3]"
    by (simp add: declared_def decimalFrom_def digitVal_def)
  have pos: "\<forall>it\<in>set ?items. 0 < declared it"
    by (simp add: declared_def decimalFrom_def digitVal_def)
  have la: "list_all (\<lambda>it. 0 < declared it) ?items"
    by (simp add: declared_def decimalFrom_def digitVal_def)
  have b: "declaredBytes ?items = 26"
    by (simp add: declaredBytes_def descCharMap_def declared_def decimalFrom_def digitVal_def)
  have f: "fieldsOf ?items = I64 # replicate 12 U8 @ replicate 3 I16"
    by (simp add: fieldsOf_def descCharMap_def effective_def decimalFrom_def digitVal_def)
  have r: "renderItems ?items = ''qC12s3''" by (simp add: renderItems_def)
  have lt: "declaredBytes ?items < 2 ^ 63" by (simp add: b)
  from layout_size_and_count [OF wf pos lt]
  have p: "parseBinaryFmtSpec ''qC12s3'' = Inr (I64 # replicate 12 U8 @ replicate 3 I16, 26)"
    unfolding r f b by simp
  have s: "sum_list (map declared ?items) = 16" unfolding dc by simp
  from wf la b r p s show ?thesis by (intro conjI)
qed

text \<open>
  C2 as stated fails: \<^verbatim>\<open>C0\<close> declares the repeat count 0 and compiles to one field;
  and a count of \<open>2\<^sup>6\<^sup>4\<close> wraps around to 0 in the 64-bit \<^verbatim>\<open>int\<close> and also gives
  one field.
\<close>

theorem zero_count_not_declared:
  "renderItems [(CHR ''C'', ''0'')] = ''C0'' \<and>
   parseBinaryFmtSpec ''C0'' = Inr ([U8], 1) \<and>
   int (length [U8]) \<noteq> sum_list (map declared [(CHR ''C'', ''0'')]) \<and>
   parseBinaryFmtSpec ''C18446744073709551616'' = Inr ([U8], 1) \<and>
   int (length [U8]) \<noteq> sum_list (map declared [(CHR ''C'', ''18446744073709551616'')])"
proof -
  have zero: "renderItems [(CHR ''C'', ''0'')] = ''C0'' \<and>
      parseBinaryFmtSpec ''C0'' = Inr ([U8], 1) \<and>
      int (length [U8]) \<noteq> sum_list (map declared [(CHR ''C'', ''0'')])"
    by (simp add: renderItems_def parseBinaryFmtSpec_def descCharMap_def isDigit_def wrap64_def
          appendLoop_eq declared_def decimalFrom_def digitVal_def)
  have wrapped: "parseBinaryFmtSpec ''C18446744073709551616'' = Inr ([U8], 1)"
    by code_simp
  have count: "int (length [U8]) \<noteq> sum_list (map declared [(CHR ''C'', ''18446744073709551616'')])"
    by (simp add: declared_def decimalFrom_def digitVal_def)
  from zero wrapped count show ?thesis by blast
qed

subsection \<open>The template expander\<close>

lemma concat_map_starRuns:
  assumes "\<And>p x xs. inCls c x \<Longrightarrow> f (p, x # xs, cs) = []"
  shows "concat (map f (starRuns c p xs cs))
         = f (p + length (takeWhile (inCls c) xs), dropWhile (inCls c) xs, cs)"
proof (induction xs arbitrary: p)
  case Nil
  show ?case by simp
next
  case (Cons x xs)
  show ?case
  proof (cases "inCls c x")
    case True
    with Cons [of "Suc p"] assms show ?thesis by simp
  next
    case False
    then show ?thesis by simp
  qed
qed

lemma dropWhile_eq_drop: "dropWhile P xs = drop (length (takeWhile P xs)) xs"
  by (induction xs) auto

lemma run_specRe:
  "run specRe (p, rest, cs) = (case specEnd rest of None \<Rightarrow> [] | Some k \<Rightarrow> [(p + k, drop k rest, cs)])"
proof (cases rest)
  case Nil
  then show ?thesis by (simp add: specRe_def specEnd_def)
next
  case (Cons x xs)
  let ?N = "inCls (NoneOf ''cdxo%'')"
  have f: "run (Cls (OneOf ''cdxo'')) (q, y # ys, cs) = []" if "?N y" for q y ys
    using that by auto
  have "run specRe (p, rest, cs)
        = (if x = CHR ''%'' then concat (map (run (Cls (OneOf ''cdxo''))) (starRuns (NoneOf ''cdxo%'') (Suc p) xs cs)) else [])"
    by (simp add: specRe_def Cons)
  also have "\<dots> = (if x = CHR ''%''
      then run (Cls (OneOf ''cdxo'')) (Suc p + length (takeWhile ?N xs), dropWhile ?N xs, cs) else [])"
    using concat_map_starRuns [of "NoneOf ''cdxo%''" "run (Cls (OneOf ''cdxo''))" cs "Suc p" xs] f
    by simp
  also have "\<dots> = (case specEnd rest of None \<Rightarrow> [] | Some k \<Rightarrow> [(p + k, drop k rest, cs)])"
  proof (cases "dropWhile ?N xs")
    case Nil
    then show ?thesis by (simp add: specEnd_def Cons del: dropWhile_eq_Nil_conv)
  next
    case (Cons l ys)
    have "drop (length (takeWhile ?N xs)) xs = l # ys"
      using Cons dropWhile_eq_drop [of ?N xs] by simp
    then have "drop (Suc (length (takeWhile ?N xs))) xs = ys"
      by (metis drop_Suc tl_drop list.sel(3))
    with Cons show ?thesis by (simp add: specEnd_def \<open>rest = x # xs\<close>)
  qed
  finally show ?thesis .
qed

lemma run_Cls_drop:
  "run (Cls c) (q, drop j r, cs)
   = (if j < length r \<and> inCls c (r ! j) then [(Suc q, drop (Suc j) r, cs)] else [])"
proof (cases "j < length r")
  case True
  then have "drop j r = r ! j # drop (Suc j) r" by (simp add: Cons_nth_drop_Suc)
  with True show ?thesis by simp
next
  case False
  then show ?thesis by simp
qed

lemma run_digitsHash:
  "run digitsHash (q, r, cs)
   = (let j = length (takeWhile (inCls Digit) r)
      in if 0 < j \<and> j < length r \<and> r ! j = CHR ''#''
         then [(q + j + 1, drop (Suc j) r, (3, q, q + j) # cs)] else [])"
proof (cases r)
  case Nil
  then show ?thesis by (simp add: digitsHash_def)
next
  case (Cons x xs)
  show ?thesis
  proof (cases "isDigit x")
    case False
    then show ?thesis by (simp add: digitsHash_def Cons)
  next
    case True
    let ?g = "\<lambda>(p', rest', cs'). (p', rest', (3, q, p') # cs')"
    let ?f = "run (Cls (Lit (CHR ''#''))) \<circ> ?g"
    let ?j = "length (takeWhile (inCls Digit) xs)"
    have fail: "?f (p, y # ys, cs) = []" if "inCls Digit y" for p y ys
      using that by (auto simp: isDigit_def)
    have "run digitsHash (q, r, cs) = concat (map ?f (starRuns Digit (Suc q) xs cs))"
      using True by (simp add: digitsHash_def Cons)
    also have "\<dots> = ?f (Suc q + ?j, dropWhile (inCls Digit) xs, cs)"
      using concat_map_starRuns [of Digit ?f cs "Suc q" xs] fail by blast
    also have "\<dots> = run (Cls (Lit (CHR ''#''))) (Suc q + ?j, drop ?j xs, (3, q, Suc q + ?j) # cs)"
      by (simp add: dropWhile_eq_drop)
    also have "\<dots> = (if ?j < length xs \<and> xs ! ?j = CHR ''#''
            then [(Suc (Suc q + ?j), drop (Suc ?j) xs, (3, q, Suc q + ?j) # cs)] else [])"
      by (simp only: run_Cls_drop inCls.simps)
    finally show ?thesis using True by (simp add: Cons Let_def)
  qed
qed

lemma run_sepDigitsHash:
  "run sepDigitsHash (q, r, cs)
   = (let i = length (takeWhile (inCls NonDigit) r)
      in run digitsHash (q + i, drop i r, (2, q, q + i) # cs))"
proof -
  let ?g = "\<lambda>(p', rest', cs'). (p', rest', (2, q, p') # cs')"
  let ?f = "run digitsHash \<circ> ?g"
  have fail: "?f (p, y # ys, cs) = []" if "inCls NonDigit y" for p y ys
    using that by (simp add: run_digitsHash)
  have "run sepDigitsHash (q, r, cs) = concat (map ?f (starRuns NonDigit q r cs))"
    by (simp add: sepDigitsHash_def)
  also have "\<dots> = ?f (q + length (takeWhile (inCls NonDigit) r), dropWhile (inCls NonDigit) r, cs)"
    using concat_map_starRuns [of NonDigit ?f cs q r] fail by blast
  finally show ?thesis by (simp add: dropWhile_eq_drop Let_def)
qed

lemma repeatPat_unfold: "repeatPat = Cat (Group 1 specRe) sepDigitsHash"
  by (simp add: repeatPat_def sepDigitsHash_def digitsHash_def)

lemma specEnd_le: "specEnd s = Some k \<Longrightarrow> 2 \<le> k \<and> k \<le> length s"
proof -
  let ?N = "inCls (NoneOf ''cdxo%'')"
  assume a: "specEnd s = Some k"
  then obtain x xs where s: "s = x # xs" by (cases s) (auto simp: specEnd_def)
  from a s have "dropWhile ?N xs \<noteq> []" and k: "k = length (takeWhile ?N xs) + 2"
    by (auto simp: specEnd_def split: list.splits if_splits simp del: dropWhile_eq_Nil_conv)
  then have "length (takeWhile ?N xs) < length xs"
    by (metis dropWhile_eq_drop drop_eq_Nil leI)
  with k s show ?thesis by simp
qed

lemma run_repeatPat:
  "run repeatPat (p, rest, [])
   = (case repeatEnd rest of
        None \<Rightarrow> []
      | Some (k1, k2, k3, k4) \<Rightarrow>
          [(p + k4, drop k4 rest, [(3, p + k2, p + k3), (2, p + k1, p + k2), (1, p, p + k1)])])"
proof (cases "specEnd rest")
  case None
  then show ?thesis by (simp add: repeatPat_unfold run_specRe repeatEnd_def)
next
  case (Some k1)
  define i where "i = length (takeWhile (inCls NonDigit) (drop k1 rest))"
  define j where "j = length (takeWhile (inCls Digit) (drop (k1 + i) rest))"
  have le: "k1 \<le> length rest" using specEnd_le [OF Some] by simp
  have le2: "k1 + i \<le> length rest"
    using le length_takeWhile_le [of "inCls NonDigit" "drop k1 rest"] by (simp add: i_def)
  have r1: "run (Group 1 specRe) (p, rest, []) = [(p + k1, drop k1 rest, [(1, p, p + k1)])]"
    using Some by (simp add: run_specRe)
  have r2: "run sepDigitsHash (p + k1, drop k1 rest, [(1, p, p + k1)])
            = run digitsHash (p + k1 + i, drop (k1 + i) rest, [(2, p + k1, p + k1 + i), (1, p, p + k1)])"
    by (simp add: run_sepDigitsHash i_def Let_def add.commute)
  have r3: "run digitsHash (p + k1 + i, drop (k1 + i) rest, [(2, p + k1, p + k1 + i), (1, p, p + k1)])
            = (if 0 < j \<and> k1 + i + j < length rest \<and> rest ! (k1 + i + j) = CHR ''#''
               then [(p + k1 + i + j + 1, drop (Suc (k1 + i + j)) rest,
                      [(3, p + k1 + i, p + k1 + i + j), (2, p + k1, p + k1 + i), (1, p, p + k1)])]
               else [])"
  proof -
    have "j < length (drop (k1 + i) rest) \<longleftrightarrow> k1 + i + j < length rest"
      using le2 by auto
    moreover have "drop (k1 + i) rest ! j = rest ! (k1 + i + j)" using le2 by simp
    moreover have "drop (Suc j) (drop (k1 + i) rest) = drop (Suc (k1 + i + j)) rest"
      by (simp add: add.commute)
    ultimately show ?thesis
      unfolding run_digitsHash Let_def j_def [symmetric] by simp
  qed
  have re: "repeatEnd rest
            = (if 0 < j \<and> k1 + i + j < length rest \<and> rest ! (k1 + i + j) = CHR ''#''
               then Some (k1, k1 + i, k1 + i + j, Suc (k1 + i + j)) else None)"
    unfolding repeatEnd_def Some option.case Let_def i_def [symmetric] j_def [symmetric]
    by simp
  have "run repeatPat (p, rest, []) = run sepDigitsHash (p + k1, drop k1 rest, [(1, p, p + k1)])"
    using r1 by (simp add: repeatPat_unfold)
  then show ?thesis using r2 r3 re by (simp add: add.assoc)
qed

lemma drop_Cons_diff: "Suc p \<le> p' \<Longrightarrow> drop (p' - p) (x # xs) = drop (p' - Suc p) xs"
  by (simp add: drop_Cons' Suc_diff_le)

lemma starRuns_thread:
  "(p', rest', cs') \<in> set (starRuns c p rest cs) \<Longrightarrow>
     p \<le> p' \<and> p' \<le> p + length rest \<and> rest' = drop (p' - p) rest \<and> cs' = cs"
proof (induction c p rest cs rule: starRuns.induct)
  case (1 c pos cs)
  then show ?case by simp
next
  case (2 c pos x xs cs)
  show ?case
  proof (cases "(p', rest', cs') = (pos, x # xs, cs)")
    case True
    then show ?thesis by simp
  next
    case False
    with 2(2) have i: "inCls c x" and m: "(p', rest', cs') \<in> set (starRuns c (Suc pos) xs cs)"
      by (auto split: if_splits)
    from 2(1) [OF i m] show ?thesis by (auto simp: drop_Cons_diff)
  qed
qed

lemma run_thread:
  "(p', rest', cs') \<in> set (run r (p, rest, cs)) \<Longrightarrow>
     p \<le> p' \<and> p' \<le> p + length rest \<and> rest' = drop (p' - p) rest"
proof (induction r arbitrary: p rest cs p' rest' cs')
  case (Cls c)
  then show ?case by (auto split: list.splits if_splits)
next
  case (Star c)
  then show ?case using starRuns_thread [of p' rest' cs' c p rest cs] by simp
next
  case (Plus c)
  then obtain x xs where r: "rest = x # xs" and "inCls c x"
    and m: "(p', rest', cs') \<in> set (starRuns c (Suc p) xs cs)"
    by (auto split: list.splits if_splits)
  from starRuns_thread [OF m] r show ?case by (auto simp: drop_Cons_diff)
next
  case Bol
  then show ?case by (auto split: if_splits)
next
  case (Cat r1 r2)
  then obtain q rest1 cs1 where a: "(q, rest1, cs1) \<in> set (run r1 (p, rest, cs))"
    and b: "(p', rest', cs') \<in> set (run r2 (q, rest1, cs1))" by auto
  from Cat.IH(1) [OF a] have 1: "p \<le> q" "q \<le> p + length rest" "rest1 = drop (q - p) rest"
    by simp_all
  from Cat.IH(2) [OF b] have 2: "q \<le> p'" "p' \<le> q + length rest1" "rest' = drop (p' - q) rest1"
    by simp_all
  from 1 2 show ?case by auto
next
  case (Alt r1 r2)
  then show ?case by auto
next
  case (Group g r)
  then obtain cs0 where "(p', rest', cs0) \<in> set (run r (p, rest, cs))" by auto
  from Group.IH [OF this] show ?case .
qed

lemma search_Some:
  assumes "search r pos rest = Some (b, e, cs)"
  shows "\<exists>i t ts. b = pos + i \<and> i \<le> length rest \<and>
           run r (pos + i, drop i rest, []) = (e, t, cs) # ts \<and>
           (\<forall>j<i. run r (pos + j, drop j rest, []) = [])"
  using assms
proof (induction r pos rest rule: search.induct)
  case (1 r pos)
  then obtain t ts where "run r (pos, [], []) = (e, t, cs) # ts" and "b = pos"
    by (auto split: list.splits)
  then show ?case by (intro exI [of _ 0]) simp
next
  case (2 r pos x xs)
  show ?case
  proof (cases "run r (pos, x # xs, [])")
    case Nil
    with 2(2) have "search r (Suc pos) xs = Some (b, e, cs)" by simp
    from 2(1) [OF Nil this] obtain i t ts where i: "b = Suc pos + i" "i \<le> length xs"
      "run r (Suc pos + i, drop i xs, []) = (e, t, cs) # ts"
      "\<forall>j<i. run r (Suc pos + j, drop j xs, []) = []" by blast
    have "\<forall>j<Suc i. run r (pos + j, drop j (x # xs), []) = []"
    proof (intro allI impI)
      fix j assume "j < Suc i"
      then show "run r (pos + j, drop j (x # xs), []) = []"
        using Nil i(4) by (cases j) auto
    qed
    with i show ?thesis by (intro exI [of _ "Suc i"]) auto
  next
    case (Cons th ths)
    with 2(2) obtain t where "th = (e, t, cs)" and "b = pos" by (auto split: prod.splits)
    with Cons show ?thesis by (intro exI [of _ 0]) simp
  qed
qed

lemma search_None:
  "search r pos rest = None \<longleftrightarrow> (\<forall>j\<le>length rest. run r (pos + j, drop j rest, []) = [])"
proof (induction r pos rest rule: search.induct)
  case (1 r pos)
  show ?case by (auto split: list.splits)
next
  case (2 r pos x xs)
  show ?case
  proof (cases "run r (pos, x # xs, [])")
    case Nil
    have "(\<forall>j\<le>length (x # xs). run r (pos + j, drop j (x # xs), []) = [])
          \<longleftrightarrow> (\<forall>j\<le>length xs. run r (Suc pos + j, drop j xs, []) = [])"
    proof
      assume a: "\<forall>j\<le>length (x # xs). run r (pos + j, drop j (x # xs), []) = []"
      show "\<forall>j\<le>length xs. run r (Suc pos + j, drop j xs, []) = []"
      proof (intro allI impI)
        fix j assume "j \<le> length xs"
        with a [rule_format, of "Suc j"] show "run r (Suc pos + j, drop j xs, []) = []" by simp
      qed
    next
      assume a: "\<forall>j\<le>length xs. run r (Suc pos + j, drop j xs, []) = []"
      show "\<forall>j\<le>length (x # xs). run r (pos + j, drop j (x # xs), []) = []"
      proof (intro allI impI)
        fix j assume "j \<le> length (x # xs)"
        then show "run r (pos + j, drop j (x # xs), []) = []"
          using Nil a by (cases j) auto
      qed
    qed
    with 2 [OF Nil] Nil show ?thesis by simp
  next
    case (Cons th ths)
    then have a: "search r pos (x # xs) \<noteq> None" by (simp split: prod.splits)
    have "run r (pos + 0, drop 0 (x # xs), []) \<noteq> []" using Cons by simp
    then have b: "\<not> (\<forall>j\<le>length (x # xs). run r (pos + j, drop j (x # xs), []) = [])"
      by blast
    from a b show ?thesis by blast
  qed
qed

lemma search_bounds:
  assumes "search r pos rest = Some (b, e, cs)"
  shows "pos \<le> b \<and> b \<le> e \<and> e \<le> pos + length rest"
proof -
  from search_Some [OF assms] obtain i t ts where i: "b = pos + i" "i \<le> length rest"
    "run r (pos + i, drop i rest, []) = (e, t, cs) # ts" by blast
  then have "(e, t, cs) \<in> set (run r (pos + i, drop i rest, []))" by simp
  from run_thread [OF this] i show ?thesis by auto
qed

lemma allMatches_found:
  "m \<in> set (allMatches re s pos prev) \<Longrightarrow>
     \<exists>pos'. pos \<le> pos' \<and> pos' \<le> length s \<and> search re pos' (drop pos' s) = Some m"
proof (induction re s pos prev rule: allMatches.induct)
  case (1 re s pos prev)
  show ?case
  proof (cases "pos \<le> length s")
    case False
    with 1(3) show ?thesis by (simp add: allMatches.simps [of re s pos])
  next
    case le: True
    show ?thesis
    proof (cases "search re pos (drop pos s)")
      case None
      with 1(3) le show ?thesis by (simp add: allMatches.simps [of re s pos])
    next
      case (Some m')
      obtain b e cs where m': "m' = (b, e, cs)" by (cases m')
      show ?thesis
      proof (cases "e = pos")
        case True
        with 1(3) le Some m' have "m = m' \<or> m \<in> set (allMatches re s (pos + 1) (int e))"
          by (auto simp: allMatches.simps [of re s pos] split: if_splits)
        then show ?thesis
        proof
          assume "m = m'"
          with Some le show ?thesis by blast
        next
          assume "m \<in> set (allMatches re s (pos + 1) (int e))"
          from 1(1) [OF le Some m' [symmetric] refl True this] show ?thesis
            by (meson Suc_leD add_leD1 order_trans le_add1)
        qed
      next
        case False
        with 1(3) le Some m' have "m = m' \<or> m \<in> set (allMatches re s e (int e))"
          by (auto simp: allMatches.simps [of re s pos] split: if_splits)
        then show ?thesis
        proof
          assume "m = m'"
          with Some le show ?thesis by blast
        next
          assume "m \<in> set (allMatches re s e (int e))"
          from 1(2) [OF le Some m' [symmetric] refl False this]
          obtain pos' where "e \<le> pos'" "pos' \<le> length s" "search re pos' (drop pos' s) = Some m"
            by blast
          moreover have "pos \<le> e" using search_bounds [of re pos "drop pos s" b e cs] Some m' by simp
          ultimately show ?thesis by (meson order_trans)
        qed
      qed
    qed
  qed
qed

lemma ordered_mono: "ordered lo hi ms \<Longrightarrow> lo' \<le> lo \<Longrightarrow> ordered lo' hi ms"
  by (cases ms) auto

lemma allMatches_ordered: "ordered pos (length s) (allMatches re s pos prev)"
proof (induction re s pos prev rule: allMatches.induct)
  case (1 re s pos prev)
  show ?case
  proof (cases "pos \<le> length s")
    case False
    then show ?thesis by (simp add: allMatches.simps [of re s pos])
  next
    case le: True
    show ?thesis
    proof (cases "search re pos (drop pos s)")
      case None
      with le show ?thesis by (simp add: allMatches.simps [of re s pos])
    next
      case (Some m')
      obtain b e cs where m': "m' = (b, e, cs)" by (cases m')
      have bnd: "pos \<le> b" "b \<le> e" "e \<le> length s"
        using search_bounds [of re pos "drop pos s" b e cs] Some m' le by simp_all
      show ?thesis
      proof (cases "e = pos")
        case True
        have "ordered (pos + 1) (length s) (allMatches re s (pos + 1) (int e))"
          by (rule 1(1) [OF le Some m' [symmetric] refl True])
        then have "ordered e (length s) (allMatches re s (pos + 1) (int e))"
          using True by (simp add: ordered_mono)
        then have "ordered pos (length s) ((b, e, cs) # allMatches re s (pos + 1) (int e))"
          and "ordered pos (length s) (allMatches re s (pos + 1) (int e))"
          using bnd True by (simp_all add: ordered_mono)
        then show ?thesis
          using le Some m' True by (simp add: allMatches.simps [of re s pos])
      next
        case False
        have "ordered e (length s) (allMatches re s e (int e))"
          by (rule 1(2) [OF le Some m' [symmetric] refl False])
        then show ?thesis
          using le Some m' False bnd by (simp add: allMatches.simps [of re s pos])
      qed
    qed
  qed
qed

lemma search_repeatPat:
  assumes "search repeatPat pos (drop pos s) = Some m" and "pos \<le> length s"
  shows "repeatMatch s m"
proof -
  obtain b e cs where m: "m = (b, e, cs)" by (cases m)
  from search_Some [OF assms(1) [unfolded m]] obtain i t ts
    where i: "b = pos + i" "i \<le> length (drop pos s)"
      "run repeatPat (pos + i, drop i (drop pos s), []) = (e, t, cs) # ts" by blast
  have d: "drop i (drop pos s) = drop b s" using i(1) by (simp add: add.commute)
  from i(3) d show ?thesis
    using i(1,2) assms(2)
    by (auto simp: repeatMatch_def m run_repeatPat split: option.splits)
qed

lemma allMatches_repeatPat:
  "m \<in> set (allMatches repeatPat s pos prev) \<Longrightarrow> repeatMatch s m"
  using allMatches_found search_repeatPat by blast

lemma goSlice_nat:
  "a \<le> b \<Longrightarrow> b \<le> length s \<Longrightarrow> goSlice s (int a) (int b) = Inr (take (b - a) (drop a s))"
  by (simp add: goSlice_def nat_diff_distrib' flip: of_nat_diff)

lemma goIndex_nat: "i < length s \<Longrightarrow> goIndex s (int i) = Inr (s ! i)"
  by (simp add: goIndex_def)

lemma repeatEnd_Some:
  assumes "repeatEnd r = Some (k1, k2, k3, k4)"
  shows "specEnd r = Some k1" and "2 \<le> k1" and "k1 \<le> k2" and "k2 < k3" and "k3 < length r"
    and "k4 = Suc k3" and "r ! k3 = CHR ''#''"
    and "take (k2 - k1) (drop k1 r) = takeWhile (inCls NonDigit) (drop k1 r)"
    and "take (k3 - k2) (drop k2 r) = takeWhile (inCls Digit) (drop k2 r)"
proof -
  from assms obtain k where k: "specEnd r = Some k"
    by (auto simp: repeatEnd_def split: option.splits)
  define i where "i = length (takeWhile (inCls NonDigit) (drop k r))"
  define j where "j = length (takeWhile (inCls Digit) (drop (k + i) r))"
  from assms k have c: "k + i < k + i + j" "k + i + j < length r" "r ! (k + i + j) = CHR ''#''"
    and e: "k1 = k" "k2 = k + i" "k3 = k + i + j" "k4 = Suc (k + i + j)"
    unfolding repeatEnd_def k option.case Let_def i_def [symmetric] j_def [symmetric]
    by (auto split: if_splits)
  show "specEnd r = Some k1" using k e by simp
  show "2 \<le> k1" using specEnd_le [OF k] e by simp
  show "k1 \<le> k2" "k2 < k3" "k3 < length r" "k4 = Suc k3" "r ! k3 = CHR ''#''"
    using c e by simp_all
  show "take (k2 - k1) (drop k1 r) = takeWhile (inCls NonDigit) (drop k1 r)"
    using e takeWhile_eq_take [of "inCls NonDigit" "drop k r"] by (simp add: i_def)
  show "take (k3 - k2) (drop k2 r) = takeWhile (inCls Digit) (drop k2 r)"
    using e takeWhile_eq_take [of "inCls Digit" "drop (k + i) r"] by (simp add: j_def)
qed

lemma repeatMatch_parts:
  assumes "repeatMatch s (b, e, cs)"
  obtains k1 k2 k3 where "repeatEnd (drop b s) = Some (k1, k2, k3, Suc k3)"
    and "e = b + Suc k3" and "cs = [(3, b + k2, b + k3), (2, b + k1, b + k2), (1, b, b + k1)]"
    and "2 \<le> k1" and "k1 \<le> k2" and "k2 < k3" and "b + k3 < length s"
proof -
  from assms obtain k1 k2 k3 k4 where r: "repeatEnd (drop b s) = Some (k1, k2, k3, k4)"
    and e: "e = b + k4" and cs: "cs = [(3, b + k2, b + k3), (2, b + k1, b + k2), (1, b, b + k1)]"
    and b: "b \<le> length s"
    by (auto simp: repeatMatch_def split: option.splits)
  note f = repeatEnd_Some [OF r]
  from f(5) b have "b + k3 < length s" by simp
  with r e cs f that show ?thesis by blast
qed

lemma submatchIndex_repeat:
  "submatchIndex 3 (b, e, [(3, b + k2, b + k3), (2, b + k1, b + k2), (1, b, b + k1)])
   = [int b, int e, int b, int (b + k1), int (b + k1), int (b + k2), int (b + k2), int (b + k3)]"
  by (simp add: submatchIndex_def upt_rec numeral_3_eq_3)

lemma group_repeat:
  assumes "cs = [(3, b + k2, b + k3), (2, b + k1, b + k2), (1, b, b + k1)]"
  shows "group s (b, e, cs) 1 = take k1 (drop b s)"
    and "group s (b, e, cs) 2 = take (k2 - k1) (drop (b + k1) s)"
    and "group s (b, e, cs) 3 = take (k3 - k2) (drop (b + k2) s)"
  using assms by (simp_all add: group_def)

lemma expandLoop_step:
  assumes "repeatMatch s (b, e, cs)" and "prev \<le> b"
  shows "expandLoop s (submatchIndex 3 (b, e, cs) # vs) (int prev) buf =
     (if escaped s (b, e, cs)
      then expandLoop s vs (int e) (buf @ take (b - prev) (drop prev s) @ take (e - b) (drop b s))
      else bindP (expansion s (b, e, cs))
             (\<lambda>r. expandLoop s vs (int e) (buf @ take (b - prev) (drop prev s) @ r)))"
proof -
  from assms(1) obtain k1 k2 k3 where r: "repeatEnd (drop b s) = Some (k1, k2, k3, Suc k3)"
    and e: "e = b + Suc k3" and cs: "cs = [(3, b + k2, b + k3), (2, b + k1, b + k2), (1, b, b + k1)]"
    and k: "2 \<le> k1" "k1 \<le> k2" "k2 < k3" "b + k3 < length s"
    by (rule repeatMatch_parts)
  let ?v = "[int b, int e, int b, int (b + k1), int (b + k1), int (b + k2), int (b + k2), int (b + k3)]"
  have v: "submatchIndex 3 (b, e, cs) = ?v" by (simp only: cs submatchIndex_repeat)
  have nth: "?v ! 0 = int b" "?v ! 1 = int e" "?v ! 2 = int b" "?v ! 3 = int (b + k1)"
    "?v ! 4 = int (b + k1)" "?v ! 5 = int (b + k2)" "?v ! 6 = int (b + k2)" "?v ! 7 = int (b + k3)"
    by (simp_all add: numeral_nat)
  have s0: "goSlice s (int prev) (int b) = Inr (take (b - prev) (drop prev s))"
    using assms(2) k by (intro goSlice_nat) simp_all
  have s1: "goSlice s (int b) (int e) = Inr (take (e - b) (drop b s))"
    using k e by (intro goSlice_nat) simp_all
  have s2: "goSlice s (int b) (int (b + k1)) = Inr (group s (b, e, cs) 1)"
    unfolding group_repeat(1) [OF cs] using goSlice_nat [of "b" "b + k1" s] k by simp
  have s3: "goSlice s (int (b + k1)) (int (b + k2)) = Inr (group s (b, e, cs) 2)"
    unfolding group_repeat(2) [OF cs] using goSlice_nat [of "b + k1" "b + k2" s] k by simp
  have s4: "goSlice s (int (b + k2)) (int (b + k3)) = Inr (group s (b, e, cs) 3)"
    unfolding group_repeat(3) [OF cs] using goSlice_nat [of "b + k2" "b + k3" s] k by simp
  have esc: "(if 0 < int b then bindP (goIndex s (int b - 1)) (\<lambda>c. Inr (c = CHR ''%''))
              else Inr False) = Inr (escaped s (b, e, cs))"
  proof (cases b)
    case 0
    then show ?thesis by (simp add: escaped_def)
  next
    case (Suc b')
    then have "int b - 1 = int b'" and "b' < length s" using k by simp_all
    then show ?thesis using Suc goIndex_nat [of b' s] by (simp add: escaped_def bindP_def)
  qed
  show ?thesis
    unfolding v expandLoop.simps nth s0 s1 s2 s3 s4 esc
    by (simp add: bindP_def expansion_def sepOf_def split: sum.splits)
qed

lemma concat_replicate_join:
  "0 < n \<Longrightarrow> concat (replicate n (c @ s)) = joinCopies n c s @ s"
proof (induction n)
  case 0
  then show ?case by simp
next
  case (Suc n)
  show ?case
  proof (cases n)
    case 0
    then show ?thesis by (simp add: joinCopies_def)
  next
    case (Suc k)
    with Suc.IH show ?thesis by (simp add: joinCopies_def)
  qed
qed

lemma repeatWithSep_cases:
  assumes "0 \<le> cnt" and "sep \<noteq> []"
  shows "repeatWithSep conv sep cnt =
     (if cnt = 0 then Inl (SliceBoundsOutOfRange (- int (length sep)))
      else if 1 < cnt \<and> maxInt < int (length (conv @ sep)) * cnt then Inl RepeatCountOverflow
      else if 1 < cnt \<and> maxAlloc < int (length (conv @ sep)) * cnt then Inl MakesliceLenOutOfRange
      else Inr (joinCopies (nat cnt) conv sep))"
proof (cases "cnt = 0")
  case True
  with assms show ?thesis
    by (simp add: repeatWithSep_def stringsRepeat_def bindP_def goSlice_def)
next
  case nz: False
  with assms have n: "0 < nat cnt" by simp
  let ?j = "joinCopies (nat cnt) conv sep"
  have c: "concat (replicate (nat cnt) (conv @ sep)) = ?j @ sep"
    by (rule concat_replicate_join [OF n])
  have g: "goSlice (?j @ sep) 0 (int (length (?j @ sep)) - int (length sep)) = Inr ?j"
    by (simp add: goSlice_def)
  show ?thesis
  proof (cases "cnt = 1")
    case True
    then have "stringsRepeat (conv @ sep) cnt = Inr (?j @ sep)"
      by (simp add: stringsRepeat_def joinCopies_def)
    with g True show ?thesis by (simp add: repeatWithSep_def bindP_def)
  next
    case False
    with nz assms have gt: "1 < cnt" by simp
    have "stringsRepeat (conv @ sep) cnt =
       (if maxInt < int (length (conv @ sep)) * cnt then Inl RepeatCountOverflow
        else if maxAlloc < int (length (conv @ sep)) * cnt then Inl MakesliceLenOutOfRange
        else Inr (?j @ sep))"
      using gt assms(2) c by (simp add: stringsRepeat_def)
    with g gt show ?thesis by (simp add: repeatWithSep_def bindP_def)
  qed
qed

lemma strconvAtoi_digits:
  assumes "ds \<noteq> []" and "list_all isDigit ds"
  shows "strconvAtoi ds =
     (if decimalFrom 0 ds \<le> maxInt then Inr (decimalFrom 0 ds) else Inl (AtoiOutOfRange ds))"
proof -
  from assms obtain d ds' where ds: "ds = d # ds'" and d: "isDigit d" by (cases ds) auto
  from d have "d \<noteq> CHR ''-''" "d \<noteq> CHR ''+''" by (auto simp: isDigit_def)
  with assms ds show ?thesis by (simp add: strconvAtoi_def Let_def)
qed

lemma repeatMatch_digits:
  assumes "repeatMatch s m"
  shows "group s m 3 \<noteq> []" and "list_all isDigit (group s m 3)" and "0 \<le> decimalFrom 0 (group s m 3)"
    and "sepOf s m \<noteq> []"
proof -
  obtain b e cs where m: "m = (b, e, cs)" by (cases m)
  from assms [unfolded m] obtain k1 k2 k3 where r: "repeatEnd (drop b s) = Some (k1, k2, k3, Suc k3)"
    and cs: "cs = [(3, b + k2, b + k3), (2, b + k1, b + k2), (1, b, b + k1)]"
    and k: "2 \<le> k1" "k1 \<le> k2" "k2 < k3" "b + k3 < length s"
    by (rule repeatMatch_parts)
  have g: "group s m 3 = takeWhile (inCls Digit) (drop k2 (drop b s))"
    using repeatEnd_Some(9) [OF r] by (simp add: m group_repeat(3) [OF cs] add.commute)
  have "length (group s m 3) = k3 - k2"
    using k by (simp add: m group_repeat(3) [OF cs])
  with k show "group s m 3 \<noteq> []" by auto
  show d: "list_all isDigit (group s m 3)"
    unfolding g list_all_iff using set_takeWhileD [of _ "inCls Digit"] by fastforce
  show "0 \<le> decimalFrom 0 (group s m 3)"
    using decimalFrom_mono [of "group s m 3" 0] d by (simp add: list_all_iff)
  show "sepOf s m \<noteq> []" by (simp add: sepOf_def)
qed

lemma expansion_cases:
  assumes "repeatMatch s m"
  shows "expansion s m =
     (if decimalFrom 0 (group s m 3) = 0 then Inl (SliceBoundsOutOfRange (- int (length (sepOf s m))))
      else if maxInt < decimalFrom 0 (group s m 3) then Inl (AtoiOutOfRange (group s m 3))
      else if 1 < decimalFrom 0 (group s m 3) \<and>
              maxInt < int (length (group s m 1 @ sepOf s m)) * decimalFrom 0 (group s m 3)
        then Inl RepeatCountOverflow
      else if 1 < decimalFrom 0 (group s m 3) \<and>
              maxAlloc < int (length (group s m 1 @ sepOf s m)) * decimalFrom 0 (group s m 3)
        then Inl MakesliceLenOutOfRange
      else Inr (joinCopies (nat (decimalFrom 0 (group s m 3))) (group s m 1) (sepOf s m)))"
proof -
  note d = repeatMatch_digits [OF assms]
  let ?n = "decimalFrom 0 (group s m 3)"
  show ?thesis
  proof (cases "?n \<le> maxInt")
    case False
    then show ?thesis
      using d by (simp add: expansion_def strconvAtoi_digits bindP_def maxInt_def)
  next
    case True
    then have "expansion s m = repeatWithSep (group s m 1) (sepOf s m) ?n"
      using d by (simp add: expansion_def strconvAtoi_digits bindP_def)
    also note repeatWithSep_cases [OF d(3) d(4)]
    finally show ?thesis using True by simp
  qed
qed





lemma processPrintFmt_loop:
  "processPrintFmt s = expandLoop s (map (submatchIndex 3) (allMatches repeatPat s 0 (- 1))) 0 []"
proof (cases "allMatches repeatPat s 0 (- 1)")
  case Nil
  then show ?thesis
    using goSlice_nat [of 0 "length s" s]
    by (simp add: processPrintFmt_def findAllStringSubmatchIndex_def bindP_def)
next
  case (Cons m ms)
  then show ?thesis by (simp add: processPrintFmt_def findAllStringSubmatchIndex_def)
qed



lemma search_first:
  assumes "\<forall>j<i. run r (pos + j, drop j rest, []) = []"
    and "run r (pos + i, drop i rest, []) = (e, t, cs) # ts" and "i \<le> length rest"
  shows "search r pos rest = Some (pos + i, e, cs)"
  using assms
proof (induction i arbitrary: pos rest)
  case 0
  then show ?case by (cases rest) simp_all
next
  case (Suc i)
  from Suc.prems(3) obtain x xs where rest: "rest = x # xs" by (cases rest) auto
  from Suc.prems(1) [rule_format, of 0] have n: "run r (pos, x # xs, []) = []"
    by (simp add: rest)
  have "search r (Suc pos) xs = Some (Suc pos + i, e, cs)"
  proof (rule Suc.IH)
    show "\<forall>j<i. run r (Suc pos + j, drop j xs, []) = []"
    proof (intro allI impI)
      fix j assume "j < i"
      with Suc.prems(1) [rule_format, of "Suc j"] show "run r (Suc pos + j, drop j xs, []) = []"
        by (simp add: rest)
    qed
    show "run r (Suc pos + i, drop i xs, []) = (e, t, cs) # ts"
      using Suc.prems(2) by (simp add: rest)
    show "i \<le> length xs" using Suc.prems(3) by (simp add: rest)
  qed
  with n show ?case by (simp add: rest)
qed

lemma search_repeatPat_shift:
  "search repeatPat (pos + k) rest = map_option (shiftMatch k) (search repeatPat pos rest)"
proof (induction repeatPat pos rest rule: search.induct)
  case (1 pos)
  show ?case by (simp add: run_repeatPat repeatEnd_def specEnd_def)
next
  case (2 pos x xs)
  show ?case
  proof (cases "repeatEnd (x # xs)")
    case None
    with 2 show ?thesis by (simp add: run_repeatPat)
  next
    case (Some q)
    then show ?thesis
      by (cases q) (simp add: run_repeatPat shiftMatch_def add.commute add.left_commute)
  qed
qed

lemma search_repeatPat_nonempty:
  assumes "search repeatPat pos rest = Some (b, e, cs)"
  shows "b < e"
proof -
  from search_Some [OF assms] obtain i t ts
    where "run repeatPat (pos + i, drop i rest, []) = (e, t, cs) # ts" and "b = pos + i" by blast
  then show ?thesis
    by (auto simp: run_repeatPat split: option.splits dest: repeatEnd_Some(6))
qed

lemma allMatches_repeatPat_shift:
  "allMatches repeatPat (pre @ suf) (length pre + pos) prev
   = map (shiftMatch (length pre)) (allMatches repeatPat suf pos prev')"
proof (induction repeatPat suf pos prev' arbitrary: prev rule: allMatches.induct)
  case (1 suf pos prev')
  let ?k = "length pre"
  show ?case
  proof (cases "pos \<le> length suf")
    case False
    then show ?thesis
      by (simp add: allMatches.simps [of _ suf pos] allMatches.simps [of _ "pre @ suf"])
  next
    case le: True
    have d: "drop (?k + pos) (pre @ suf) = drop pos suf" by simp
    have sh: "search repeatPat (?k + pos) (drop pos suf)
              = map_option (shiftMatch ?k) (search repeatPat pos (drop pos suf))"
      using search_repeatPat_shift [of pos ?k] by (simp add: add.commute)
    show ?thesis
    proof (cases "search repeatPat pos (drop pos suf)")
      case None
      with le sh d show ?thesis
        by (simp add: allMatches.simps [of _ suf pos] allMatches.simps [of _ "pre @ suf"])
    next
      case (Some m)
      obtain b e cs where m: "m = (b, e, cs)" by (cases m)
      have be: "pos \<le> b" "b < e"
        using search_bounds [of repeatPat pos "drop pos suf" b e cs]
          search_repeatPat_nonempty [of pos "drop pos suf" b e cs] Some m by simp_all
      then have ne: "e \<noteq> pos" by simp
      have ih: "allMatches repeatPat (pre @ suf) (?k + e) (int (e + ?k))
                = map (shiftMatch ?k) (allMatches repeatPat suf e (int e))"
        by (rule 1(2) [OF le Some m [symmetric] refl ne])
      have l: "allMatches repeatPat suf pos prev' = (b, e, cs) # allMatches repeatPat suf e (int e)"
        using le Some m ne by (simp add: allMatches.simps [of _ suf pos])
      have "search repeatPat (?k + pos) (drop (?k + pos) (pre @ suf))
            = Some (b + ?k, e + ?k, map (\<lambda>(g, x, y). (g, x + ?k, y + ?k)) cs)"
        using sh Some m d by (simp add: shiftMatch_def)
      then have r: "allMatches repeatPat (pre @ suf) (?k + pos) prev
            = (b + ?k, e + ?k, map (\<lambda>(g, x, y). (g, x + ?k, y + ?k)) cs)
              # allMatches repeatPat (pre @ suf) (e + ?k) (int (e + ?k))"
        using le ne be by (simp add: allMatches.simps [of _ "pre @ suf" "?k + pos"])
      show ?thesis using l r ih by (simp add: shiftMatch_def add.commute)
    qed
  qed
qed

lemma repeatMatch_shift:
  assumes "repeatMatch suf (b, e, cs)"
  shows "repeatMatch (pre @ suf)
           (b + length pre, e + length pre, map (\<lambda>(g, x, y). (g, x + length pre, y + length pre)) cs)"
proof -
  have "drop (b + length pre) (pre @ suf) = drop b suf" by simp
  with assms show ?thesis
    by (auto simp: repeatMatch_def split: option.splits)
qed

lemma group_shift:
  assumes "repeatMatch suf (b, e, cs)"
  shows "group (pre @ suf)
           (b + length pre, e + length pre, map (\<lambda>(g, x, y). (g, x + length pre, y + length pre)) cs) g
         = group suf (b, e, cs) g"
proof -
  from assms obtain k1 k2 k3 where cs: "cs = [(3, b + k2, b + k3), (2, b + k1, b + k2), (1, b, b + k1)]"
    by (rule repeatMatch_parts)
  have d: "drop (x + length pre) (pre @ suf) = drop x suf" for x by simp
  show ?thesis by (simp add: group_def cs d)
qed

lemma expansion_shift:
  assumes "repeatMatch suf (b, e, cs)"
  shows "expansion (pre @ suf)
           (b + length pre, e + length pre, map (\<lambda>(g, x, y). (g, x + length pre, y + length pre)) cs)
         = expansion suf (b, e, cs)"
  by (simp only: expansion_def sepOf_def group_shift [OF assms])

lemma escaped_shift:
  assumes "pre \<noteq> []" and "last pre \<noteq> CHR ''%''"
  shows "escaped (pre @ suf) (b + length pre, e', cs') \<longleftrightarrow> escaped suf (b, e, cs)"
proof (cases b)
  case 0
  have "(pre @ suf) ! (length pre - 1) = last pre"
    using assms(1) by (simp add: nth_append last_conv_nth)
  with 0 assms show ?thesis by (simp add: escaped_def)
next
  case (Suc b')
  then have "(pre @ suf) ! (b + length pre - 1) = suf ! (b - 1)"
    by (simp add: nth_append)
  with Suc show ?thesis by (simp add: escaped_def)
qed

declare expandLoop.simps(2) [simp del]

lemma expandLoop_shift:
  assumes "ordered prev (length suf) ms" and "prev \<le> length suf"
    and "\<forall>m\<in>set ms. repeatMatch suf m"
    and "pre \<noteq> []" and "last pre \<noteq> CHR ''%''"
  shows "expandLoop (pre @ suf) (map (submatchIndex 3) (map (shiftMatch (length pre)) ms))
           (int (prev + length pre)) (buf1 @ buf0)
         = bindP (expandLoop suf (map (submatchIndex 3) ms) (int prev) buf0) (\<lambda>t. Inr (buf1 @ t))"
  using assms(1,2,3)
proof (induction ms arbitrary: prev buf0)
  case Nil
  have "goSlice (pre @ suf) (int (prev + length pre)) (int (length (pre @ suf)))
        = Inr (drop prev suf)"
    using goSlice_nat [of "prev + length pre" "length (pre @ suf)" "pre @ suf"] Nil.prems(2)
    by simp
  moreover have "goSlice suf (int prev) (int (length suf)) = Inr (drop prev suf)"
    using goSlice_nat [of prev "length suf" suf] Nil.prems(2) by simp
  ultimately show ?case by (simp add: bindP_def)
next
  case (Cons m ms)
  let ?k = "length pre"
  obtain b e cs where m: "m = (b, e, cs)" by (cases m)
  let ?cs = "map (\<lambda>(g, x, y). (g, x + ?k, y + ?k)) cs"
  from Cons.prems(1) m have o: "prev \<le> b" "b \<le> e" "e \<le> length suf" "ordered e (length suf) ms"
    by simp_all
  from Cons.prems(3) m have rm: "repeatMatch suf (b, e, cs)" and rms: "\<forall>m\<in>set ms. repeatMatch suf m"
    by simp_all
  have rm': "repeatMatch (pre @ suf) (b + ?k, e + ?k, ?cs)" by (rule repeatMatch_shift [OF rm])
  have o': "prev + ?k \<le> b + ?k" using o by simp
  have A: "take (b + ?k - (prev + ?k)) (drop (prev + ?k) (pre @ suf)) = take (b - prev) (drop prev suf)"
    by simp
  have B: "take (e + ?k - (b + ?k)) (drop (b + ?k) (pre @ suf)) = take (e - b) (drop b suf)"
    by simp
  note l = expandLoop_step [OF rm' o', of "map (submatchIndex 3) (map (shiftMatch ?k) ms)" "buf1 @ buf0",
      unfolded A B expansion_shift [OF rm] escaped_shift [OF assms(4,5), of suf b "e + ?k" ?cs e cs]]
  note r = expandLoop_step [OF rm o(1), of "map (submatchIndex 3) ms" buf0]
  note ih = Cons.IH [OF o(4) o(3) rms]
  have sm: "shiftMatch ?k (b, e, cs) = (b + ?k, e + ?k, ?cs)" by (simp add: shiftMatch_def)
  show ?case
  proof (cases "escaped suf (b, e, cs)")
    case True
    with l r ih [of "buf0 @ take (b - prev) (drop prev suf) @ take (e - b) (drop b suf)"]
    show ?thesis by (simp add: m sm)
  next
    case False
    show ?thesis
    proof (cases "expansion suf (b, e, cs)")
      case (Inl err)
      with False l r show ?thesis by (simp add: m sm bindP_def)
    next
      case (Inr x)
      with False l r ih [of "buf0 @ take (b - prev) (drop prev suf) @ x"]
      show ?thesis by (simp add: m sm bindP_def)
    qed
  qed
qed

lemma specEnd_conv:
  assumes "\<forall>c\<in>set mods. c \<notin> set ''cdxo%''" and "l \<in> set ''cdxo''"
  shows "specEnd ((CHR ''%'' # mods @ [l]) @ x) = Some (length (CHR ''%'' # mods @ [l]))"
proof -
  let ?N = "inCls (NoneOf ''cdxo%'')"
  have m: "\<forall>c\<in>set mods. ?N c" using assms(1) by simp
  have l: "\<not> ?N l" using assms(2) by auto
  have "dropWhile ?N (mods @ l # x) = l # x"
    using m l by (simp add: dropWhile_append2)
  moreover have "takeWhile ?N (mods @ l # x) = mods"
    using m l by (simp add: takeWhile_append2)
  ultimately show ?thesis using assms(2) by (simp add: specEnd_def)
qed

lemma repeatEnd_occurrence:
  assumes "\<forall>c\<in>set mods. c \<notin> set ''cdxo%''" and "l \<in> set ''cdxo''"
    and "\<forall>c\<in>set sep. \<not> isDigit c" and "ds \<noteq> []" and "\<forall>c\<in>set ds. isDigit c"
    and "conv = CHR ''%'' # mods @ [l]"
  shows "repeatEnd (conv @ sep @ ds @ CHR ''#'' # suf)
         = Some (length conv, length conv + length sep, length conv + length sep + length ds,
                 Suc (length conv + length sep + length ds))"
proof -
  let ?r = "conv @ sep @ ds @ CHR ''#'' # suf"
  have s: "specEnd ?r = Some (length conv)"
    unfolding assms(6) by (rule specEnd_conv [OF assms(1,2)])
  obtain d ds' where ds: "ds = d # ds'" using assms(4) by (cases ds) auto
  have d: "isDigit d" using assms(5) ds by simp
  have t1: "takeWhile (inCls NonDigit) (drop (length conv) ?r) = sep"
    using assms(3) d by (simp add: takeWhile_append2 ds)
  have "\<not> isDigit (CHR ''#'')" by (simp add: isDigit_def)
  then have t2: "takeWhile (inCls Digit) (drop (length conv + length sep) ?r) = ds"
    using assms(5) by (simp add: takeWhile_append2)
  have n: "?r ! (length conv + length sep + length ds) = CHR ''#''"
    by (simp add: nth_append)
  show ?thesis
    unfolding repeatEnd_def s option.case Let_def t1 t2 using assms(4) n by simp
qed

text \<open>
  A place where the pattern matches and before which it matches nowhere is found by the
  search.
\<close>

lemma matchAt_first:
  assumes "\<forall>j<k. run repeatPat (j, drop j s, []) = []"
    and "run repeatPat (k, drop k s, []) \<noteq> []" and "k \<le> length s"
  shows "matchAt s k"
proof -
  from assms(2) obtain e t cs ts where f: "run repeatPat (0 + k, drop k s, []) = (e, t, cs) # ts"
    by (cases "run repeatPat (k, drop k s, [])") auto
  have n: "\<forall>j<k. run repeatPat (0 + j, drop j s, []) = []" using assms(1) by simp
  have "search repeatPat 0 s = Some (0 + k, e, cs)" by (rule search_first [OF n f assms(3)])
  then have sr: "search repeatPat 0 (drop 0 s) = Some (k, e, cs)" by simp
  from search_repeatPat_nonempty [OF sr] have "e \<noteq> 0" by simp
  with sr have "allMatches repeatPat s 0 (- 1) = (k, e, cs) # allMatches repeatPat s e (int e)"
    by (simp add: allMatches.simps [of _ s 0])
  then show ?thesis by (simp add: matchAt_def)
qed

lemma repeatEnd_shape:
  assumes "repeatEnd r = Some (k1, k2, k3, k4)"
  obtains mods l sep ds rest where "r = (CHR ''%'' # mods @ [l]) @ sep @ ds @ CHR ''#'' # rest"
    and "\<forall>c\<in>set mods. c \<notin> set ''cdxo%''" and "l \<in> set ''cdxo''"
    and "\<forall>c\<in>set sep. \<not> isDigit c" and "ds \<noteq> []" and "\<forall>c\<in>set ds. isDigit c"
    and "k1 = length (CHR ''%'' # mods @ [l])" and "k2 = k1 + length sep"
    and "k3 = k2 + length ds" and "k4 = Suc k3"
proof -
  let ?N = "inCls (NoneOf ''cdxo%'')"
  note f = repeatEnd_Some [OF assms]
  from f(1) obtain xs where r: "r = CHR ''%'' # xs"
    by (cases r) (auto simp: specEnd_def split: if_splits)
  from f(1) r obtain l tl where d: "dropWhile ?N xs = l # tl" and l: "l \<in> set ''cdxo''"
    and k1: "k1 = length (takeWhile ?N xs) + 2"
    by (auto simp: specEnd_def split: list.splits if_splits)
  define mods where "mods = takeWhile ?N xs"
  define sep where "sep = take (k2 - k1) (drop k1 r)"
  define ds where "ds = take (k3 - k2) (drop k2 r)"
  have xs: "xs = mods @ l # tl" using d takeWhile_dropWhile_id [of ?N xs] by (simp add: mods_def)
  have m: "\<forall>c\<in>set mods. c \<notin> set ''cdxo%''"
    using set_takeWhileD [of _ ?N xs] unfolding mods_def by fastforce
  have k1': "k1 = length (CHR ''%'' # mods @ [l])" using k1 by (simp add: mods_def)
  have t1: "take k1 r = CHR ''%'' # mods @ [l]" using k1' by (simp add: r xs)
  have s: "\<forall>c\<in>set sep. \<not> isDigit c"
    unfolding sep_def f(8) using set_takeWhileD [of _ "inCls NonDigit"] by fastforce
  have dg: "\<forall>c\<in>set ds. isDigit c"
    unfolding ds_def f(9) using set_takeWhileD [of _ "inCls Digit"] by fastforce
  have ls: "length sep = k2 - k1" and ld: "length ds = k3 - k2"
    using f(3,4,5) by (simp_all add: sep_def ds_def)
  have ne: "ds \<noteq> []" using ld f(4) by auto
  have h: "drop k3 r = CHR ''#'' # drop (Suc k3) r"
    using f(5,7) by (metis Cons_nth_drop_Suc)
  have "r = take k1 r @ drop k1 r" by simp
  also have "drop k1 r = sep @ drop k2 r"
    unfolding sep_def using f(3) by (metis append_take_drop_id drop_drop le_add_diff_inverse2)
  also have "drop k2 r = ds @ drop k3 r"
    unfolding ds_def using f(4) by (metis append_take_drop_id drop_drop le_add_diff_inverse2 less_imp_le)
  finally have "r = (CHR ''%'' # mods @ [l]) @ sep @ ds @ CHR ''#'' # drop (Suc k3) r"
    unfolding t1 h .
  moreover have "k2 = k1 + length sep" "k3 = k2 + length ds" using ls ld f(3,4) by simp_all
  ultimately show ?thesis using that m l s ne dg k1' f(6) by blast
qed

lemma repeatEnd_append:
  assumes "repeatEnd x = Some q"
  shows "repeatEnd (x @ y) = Some q"
proof -
  obtain k1 k2 k3 k4 where q: "q = (k1, k2, k3, k4)" by (cases q)
  from assms [unfolded q] obtain mods l sep ds rest
    where x: "x = (CHR ''%'' # mods @ [l]) @ sep @ ds @ CHR ''#'' # rest"
      and sh: "\<forall>c\<in>set mods. c \<notin> set ''cdxo%''" "l \<in> set ''cdxo''"
        "\<forall>c\<in>set sep. \<not> isDigit c" "ds \<noteq> []" "\<forall>c\<in>set ds. isDigit c"
      and k: "k1 = length (CHR ''%'' # mods @ [l])" "k2 = k1 + length sep"
        "k3 = k2 + length ds" "k4 = Suc k3"
    by (rule repeatEnd_shape)
  have "x @ y = (CHR ''%'' # mods @ [l]) @ sep @ ds @ CHR ''#'' # (rest @ y)" by (simp add: x)
  then show ?thesis
    using repeatEnd_occurrence [OF sh refl, of "rest @ y"] k q by simp
qed

lemma repeatEnd_prefix:
  assumes "repeatEnd (x @ y) = Some (k1, k2, k3, k4)" and "k4 \<le> length x"
  shows "repeatEnd x = Some (k1, k2, k3, k4)"
proof -
  from assms(1) obtain mods l sep ds rest
    where xy: "x @ y = (CHR ''%'' # mods @ [l]) @ sep @ ds @ CHR ''#'' # rest"
      and sh: "\<forall>c\<in>set mods. c \<notin> set ''cdxo%''" "l \<in> set ''cdxo''"
        "\<forall>c\<in>set sep. \<not> isDigit c" "ds \<noteq> []" "\<forall>c\<in>set ds. isDigit c"
      and k: "k1 = length (CHR ''%'' # mods @ [l])" "k2 = k1 + length sep"
        "k3 = k2 + length ds" "k4 = Suc k3"
    by (rule repeatEnd_shape)
  define occ where "occ = (CHR ''%'' # mods @ [l]) @ sep @ ds @ [CHR ''#'']"
  have lo: "length occ = k4" using k by (simp add: occ_def)
  have xy': "x @ y = occ @ rest" using xy by (simp add: occ_def)
  have "take k4 (x @ y) = occ" unfolding xy' using lo by simp
  then have "take k4 x = occ" using assms(2) by simp
  then have "x = occ @ drop k4 x" by (metis append_take_drop_id)
  then have "x = (CHR ''%'' # mods @ [l]) @ sep @ ds @ CHR ''#'' # drop k4 x"
    by (simp add: occ_def)
  then show ?thesis
    using repeatEnd_occurrence [OF sh refl, of "drop k4 x"] k by simp
qed

lemma run_repeatPat_append:
  "run repeatPat (p, x, []) \<noteq> [] \<Longrightarrow> run repeatPat (p, x @ y, []) \<noteq> []"
  using repeatEnd_append [of x _ y]
  by (cases "repeatEnd x") (auto simp: run_repeatPat)

lemma ordered_member: "ordered lo hi ms \<Longrightarrow> (b, e, cs) \<in> set ms \<Longrightarrow> lo \<le> b \<and> b \<le> e \<and> e \<le> hi"
proof (induction ms arbitrary: lo)
  case Nil
  then show ?case by simp
next
  case (Cons m ms)
  obtain b' e' cs' where m: "m = (b', e', cs')" by (cases m)
  from Cons.prems(1) m have o: "lo \<le> b'" "b' \<le> e'" "e' \<le> hi" "ordered e' hi ms" by simp_all
  show ?case
  proof (cases "(b, e, cs) = m")
    case True
    with m o show ?thesis by simp
  next
    case False
    with Cons.prems(2) have "(b, e, cs) \<in> set ms" by simp
    from Cons.IH [OF o(4) this] o show ?thesis by simp
  qed
qed

lemma allMatches_prefix:
  "s = pre @ rest \<Longrightarrow> (length pre, e0, cs0) \<in> set (allMatches repeatPat s pos prev) \<Longrightarrow>
   pos \<le> length pre \<Longrightarrow>
     allMatches repeatPat s pos prev
       = allMatches repeatPat pre pos prev'
         @ (length pre, e0, cs0) # allMatches repeatPat s e0 (int e0)"
proof (induction repeatPat s pos prev arbitrary: prev' rule: allMatches.induct)
  case (1 s pos prev)
  let ?k = "length pre"
  note s = \<open>s = pre @ rest\<close>
  note mem = \<open>(?k, e0, cs0) \<in> set (allMatches repeatPat s pos prev)\<close>
  note le = \<open>pos \<le> ?k\<close>
  have ls: "pos \<le> length s" using le s by simp
  from mem ls obtain m where Some: "search repeatPat pos (drop pos s) = Some m"
    by (cases "search repeatPat pos (drop pos s)") (auto simp: allMatches.simps [of _ s pos])
  obtain b e cs where m: "m = (b, e, cs)" by (cases m)
  have be: "pos \<le> b" "b < e" "e \<le> length s"
    using search_bounds [of repeatPat pos "drop pos s" b e cs]
      search_repeatPat_nonempty [of pos "drop pos s" b e cs] Some m ls by simp_all
  then have ne: "e \<noteq> pos" by simp
  have l: "allMatches repeatPat s pos prev = (b, e, cs) # allMatches repeatPat s e (int e)"
    using ls Some m ne by (simp add: allMatches.simps [of _ s pos])
  have o: "ordered e (length s) (allMatches repeatPat s e (int e))" by (rule allMatches_ordered)
  from search_Some [OF Some [unfolded m]] obtain i t ts where i: "b = pos + i"
    and first: "run repeatPat (pos + i, drop i (drop pos s), []) = (e, t, cs) # ts"
    and none: "\<forall>j<i. run repeatPat (pos + j, drop j (drop pos s), []) = []" by blast
  have none_pre: "run repeatPat (pos + j, drop j (drop pos pre), []) = []"
    if "j < i" and "pos + j \<le> ?k" for j
  proof (rule ccontr)
    assume "run repeatPat (pos + j, drop j (drop pos pre), []) \<noteq> []"
    then have "run repeatPat (pos + j, drop j (drop pos pre) @ rest, []) \<noteq> []"
      by (rule run_repeatPat_append)
    moreover have "drop j (drop pos pre) @ rest = drop j (drop pos s)"
      using that(2) by (simp add: s add.commute)
    ultimately show False using none that(1) by simp
  qed
  show ?case
  proof (cases "b = ?k")
    case True
    have "(?k, e0, cs0) \<notin> set (allMatches repeatPat s e (int e))"
      using ordered_member [OF o, of ?k e0 cs0] be True by auto
    with mem l have eq: "e0 = e" "cs0 = cs" by auto
    have "run repeatPat (pos + j, drop j (drop pos pre), []) = []" if "j \<le> length (drop pos pre)" for j
    proof (cases "j < i")
      case True
      with none_pre [of j] that le show ?thesis by simp
    next
      case False
      with that i True le have "drop j (drop pos pre) = []" by simp
      then show ?thesis by (simp add: run_repeatPat repeatEnd_def specEnd_def)
    qed
    then have "search repeatPat pos (drop pos pre) = None" by (simp add: search_None)
    then have "allMatches repeatPat pre pos prev' = []"
      using le by (simp add: allMatches.simps [of _ pre pos])
    with l True eq show ?thesis by simp
  next
    case False
    with mem l have mt: "(?k, e0, cs0) \<in> set (allMatches repeatPat s e (int e))" by auto
    from ordered_member [OF o mt] have ek: "e \<le> ?k" by simp
    with be have bk: "b < ?k" by simp
    have rm: "repeatMatch s (b, e, cs)" using search_repeatPat [OF Some ls] m by simp
    then obtain k1 k2 k3 where re: "repeatEnd (drop b s) = Some (k1, k2, k3, Suc k3)"
      and e: "e = b + Suc k3" and cs: "cs = [(3, b + k2, b + k3), (2, b + k1, b + k2), (1, b, b + k1)]"
      by (rule repeatMatch_parts)
    have "drop b s = drop b pre @ rest" using bk by (simp add: s)
    with re have "repeatEnd (drop b pre @ rest) = Some (k1, k2, k3, Suc k3)" by simp
    then have rp: "repeatEnd (drop b pre) = Some (k1, k2, k3, Suc k3)"
      by (rule repeatEnd_prefix) (use ek e in simp)
    have d: "drop i (drop pos pre) = drop b pre" using i by (simp add: add.commute)
    have f: "run repeatPat (pos + i, drop i (drop pos pre), [])
             = (e, drop (Suc k3) (drop b pre), cs) # []"
      unfolding d using rp i e cs by (simp add: run_repeatPat)
    have n: "\<forall>j<i. run repeatPat (pos + j, drop j (drop pos pre), []) = []"
      using none_pre i bk by simp
    have "search repeatPat pos (drop pos pre) = Some (pos + i, e, cs)"
      by (rule search_first [OF n f]) (use i bk in simp)
    then have lp: "allMatches repeatPat pre pos prev' = (b, e, cs) # allMatches repeatPat pre e (int e)"
      using le i ne by (simp add: allMatches.simps [of _ pre pos])
    have ih: "allMatches repeatPat s e (int e)
              = allMatches repeatPat pre e (int e)
                @ (?k, e0, cs0) # allMatches repeatPat s e0 (int e0)"
      by (rule 1(2) [OF ls Some m [symmetric] refl ne s mt ek])
    show ?thesis unfolding l lp ih by simp
  qed
qed

lemma repeatMatch_append:
  assumes "repeatMatch pre (b, e, cs)"
  shows "repeatMatch (pre @ rest) (b, e, cs)"
proof -
  from assms have b: "b \<le> length pre" by (simp add: repeatMatch_def)
  then have "drop b (pre @ rest) = drop b pre @ rest" by simp
  with assms b repeatEnd_append [of "drop b pre" _ rest] show ?thesis
    by (auto simp: repeatMatch_def split: option.splits)
qed

lemma group_append:
  assumes "repeatMatch pre (b, e, cs)"
  shows "group (pre @ rest) (b, e, cs) g = group pre (b, e, cs) g"
proof -
  from assms obtain k1 k2 k3 where cs: "cs = [(3, b + k2, b + k3), (2, b + k1, b + k2), (1, b, b + k1)]"
    and k: "2 \<le> k1" "k1 \<le> k2" "k2 < k3" "b + k3 < length pre"
    by (rule repeatMatch_parts)
  from k show ?thesis by (simp add: group_def cs)
qed

lemma expansion_append:
  assumes "repeatMatch pre (b, e, cs)"
  shows "expansion (pre @ rest) (b, e, cs) = expansion pre (b, e, cs)"
  by (simp only: expansion_def sepOf_def group_append [OF assms])

lemma escaped_append:
  assumes "repeatMatch pre (b, e, cs)"
  shows "escaped (pre @ rest) (b, e, cs) \<longleftrightarrow> escaped pre (b, e, cs)"
proof -
  from assms obtain k1 k2 k3 where "b + k3 < length pre" by (rule repeatMatch_parts)
  then have "b - 1 < length pre" by simp
  then have "(pre @ rest) ! (b - 1) = pre ! (b - 1)" by (simp only: nth_append if_True)
  then show ?thesis by (simp add: escaped_def)
qed

lemma expandLoop_prefix:
  assumes "ordered prev (length pre) ms" and "prev \<le> length pre"
    and "\<forall>m\<in>set ms. repeatMatch pre m"
    and "repeatMatch (pre @ rest) (length pre, e0, cs0)"
  shows "expandLoop (pre @ rest)
           (map (submatchIndex 3) ms @ submatchIndex 3 (length pre, e0, cs0) # vs) (int prev) buf
         = bindP (expandLoop pre (map (submatchIndex 3) ms) (int prev) buf)
             (\<lambda>p. expandLoop (pre @ rest) (submatchIndex 3 (length pre, e0, cs0) # vs)
                     (int (length pre)) p)"
  using assms(1,2,3)
proof (induction ms arbitrary: prev buf)
  case Nil
  let ?k = "length pre"
  have p: "expandLoop pre [] (int prev) buf = Inr (buf @ drop prev pre)"
    using goSlice_nat [of prev "length pre" pre] Nil.prems(2) by (simp add: bindP_def)
  have t: "take (?k - prev) (drop prev (pre @ rest)) = drop prev pre"
    using Nil.prems(2) by simp
  note l = expandLoop_step [OF assms(4) Nil.prems(2), of vs buf, unfolded t]
  note r = expandLoop_step [OF assms(4) order_refl, of vs "buf @ drop prev pre"]
  show ?case using l r p by (simp add: bindP_def)
next
  case (Cons m ms)
  let ?k = "length pre"
  let ?vs = "map (submatchIndex 3) ms @ submatchIndex 3 (?k, e0, cs0) # vs"
  obtain b e cs where m: "m = (b, e, cs)" by (cases m)
  from Cons.prems(1) m have o: "prev \<le> b" "b \<le> e" "e \<le> ?k" "ordered e ?k ms"
    by simp_all
  from Cons.prems(3) m have rm: "repeatMatch pre (b, e, cs)" and rms: "\<forall>m\<in>set ms. repeatMatch pre m"
    by simp_all
  have rm': "repeatMatch (pre @ rest) (b, e, cs)" by (rule repeatMatch_append [OF rm])
  have A: "take (b - prev) (drop prev (pre @ rest)) = take (b - prev) (drop prev pre)"
    using o by simp
  have B: "take (e - b) (drop b (pre @ rest)) = take (e - b) (drop b pre)"
    using o by simp
  note l = expandLoop_step [OF rm' o(1), of ?vs buf,
      unfolded A B expansion_append [OF rm] escaped_append [OF rm]]
  note r = expandLoop_step [OF rm o(1), of "map (submatchIndex 3) ms" buf]
  note ih = Cons.IH [OF o(4) o(3) rms]
  show ?case
  proof (cases "escaped pre (b, e, cs)")
    case True
    with l r ih [of "buf @ take (b - prev) (drop prev pre) @ take (e - b) (drop b pre)"]
    show ?thesis by (simp add: m)
  next
    case False
    show ?thesis
    proof (cases "expansion pre (b, e, cs)")
      case (Inl err)
      with False l r show ?thesis by (simp add: m bindP_def)
    next
      case (Inr x)
      with False l r ih [of "buf @ take (b - prev) (drop prev pre) @ x"]
      show ?thesis by (simp add: m bindP_def)
    qed
  qed
qed

text \<open>
  C6 (amended): a repeat shorthand, that is a conversion directive, a separator without
  digits, a run of digits and \<^verbatim>\<open>#\<close>, that the search finds as a match (it does not lie
  inside an earlier match), that does not directly follow a \<^verbatim>\<open>%\<close>, whose count is at
  least 1 and, unless it is 1, asks for a repetition of the directive and the separator
  within \<^verbatim>\<open>maxAlloc\<close>, is replaced by count copies of the directive joined by the
  separator (a single space when the separator is empty); the text before it and the
  text after it are expanded on their own.
\<close>

theorem repeat_shorthand_expands:
  assumes "matchAt (pre @ conv @ sep @ ds @ ''#'' @ suf) (length pre)"
    and "pre = [] \<or> last pre \<noteq> CHR ''%''"
    and "conv = CHR ''%'' # mods @ [l]"
    and "\<forall>c\<in>set mods. c \<notin> set ''cdxo%''" and "l \<in> set ''cdxo''"
    and "\<forall>c\<in>set sep. \<not> isDigit c" and "ds \<noteq> []" and "\<forall>c\<in>set ds. isDigit c"
    and "sep' = (if sep = [] then '' '' else sep)"
    and "0 < decimalFrom 0 ds"
    and "decimalFrom 0 ds = 1 \<or> int (length (conv @ sep')) * decimalFrom 0 ds \<le> maxAlloc"
  shows "processPrintFmt (pre @ conv @ sep @ ds @ ''#'' @ suf)
         = bindP (processPrintFmt pre) (\<lambda>p. bindP (processPrintFmt suf)
             (\<lambda>t. Inr (p @ joinCopies (nat (decimalFrom 0 ds)) conv sep' @ t)))"
proof -
  define occ where "occ = conv @ sep @ ds @ ''#''"
  define s where "s = pre @ occ @ suf"
  define k where "k = length pre"
  define k1 where "k1 = length conv"
  define k2 where "k2 = k1 + length sep"
  define k3 where "k3 = k2 + length ds"
  define cs :: caps where "cs = [(3, k + k2, k + k3), (2, k + k1, k + k2), (1, k, k + k1)]"
  define ms where "ms = allMatches repeatPat suf 0 (- 1)"
  define mp where "mp = allMatches repeatPat pre 0 (- 1)"
  define vs where "vs = map (submatchIndex 3) (map (shiftMatch (length (pre @ occ))) ms)"
  let ?j = "joinCopies (nat (decimalFrom 0 ds)) conv sep'"
  have occ_suf: "occ @ suf = conv @ sep @ ds @ CHR ''#'' # suf" by (simp add: occ_def)
  have s': "pre @ conv @ sep @ ds @ ''#'' @ suf = s" by (simp add: s_def occ_def)
  have len_occ: "length occ = Suc k3" by (simp add: occ_def k3_def k2_def k1_def)
  have re: "repeatEnd (drop k s) = Some (k1, k2, k3, Suc k3)"
    using repeatEnd_occurrence [OF assms(4,5,6,7,8,3), of suf]
    by (simp add: s_def k_def occ_suf k1_def k2_def k3_def)
  have rm0: "repeatMatch s (k, k + Suc k3, cs)"
    using re by (simp add: repeatMatch_def cs_def s_def k_def)
  from assms(1) obtain e0 cs0 where mem: "(k, e0, cs0) \<in> set (allMatches repeatPat s 0 (- 1))"
    unfolding matchAt_def s' k_def by auto
  then have "repeatMatch s (k, e0, cs0)" by (rule allMatches_repeatPat)
  with re have "e0 = k + Suc k3" "cs0 = cs" by (simp_all add: repeatMatch_def cs_def)
  with mem have mem': "(length pre, k + Suc k3, cs) \<in> set (allMatches repeatPat s 0 (- 1))"
    by (simp add: k_def)
  have am: "allMatches repeatPat s 0 (- 1)
            = mp @ (k, k + Suc k3, cs) # allMatches repeatPat s (k + Suc k3) (int (k + Suc k3))"
    unfolding mp_def k_def
    by (rule allMatches_prefix [OF _ mem' le0, unfolded k_def]) (simp add: s_def)
  have sh: "allMatches repeatPat s (k + Suc k3) (int (k + Suc k3))
            = map (shiftMatch (length (pre @ occ))) ms"
    using allMatches_repeatPat_shift [of "pre @ occ" suf 0 "int (k + Suc k3)" "- 1"]
    by (simp add: s_def ms_def k_def len_occ)
  have nesc: "\<not> escaped s (k, k + Suc k3, cs)"
  proof (cases "pre = []")
    case True
    then show ?thesis by (simp add: escaped_def k_def)
  next
    case False
    then have "s ! (k - 1) = last pre"
      by (simp add: s_def k_def nth_append last_conv_nth)
    with False assms(2) show ?thesis by (simp add: escaped_def)
  qed
  have g1: "group s (k, k + Suc k3, cs) 1 = conv"
    unfolding group_repeat(1) [OF cs_def] by (simp add: s_def k_def k1_def occ_def)
  have g2: "group s (k, k + Suc k3, cs) 2 = sep"
    unfolding group_repeat(2) [OF cs_def] by (simp add: s_def k_def k1_def k2_def occ_def)
  have g3: "group s (k, k + Suc k3, cs) 3 = ds"
    unfolding group_repeat(3) [OF cs_def] by (simp add: s_def k_def k1_def k2_def k3_def occ_def)
  have so: "sepOf s (k, k + Suc k3, cs) = sep'" unfolding sepOf_def g2 assms(9) by simp
  have ex: "expansion s (k, k + Suc k3, cs) = Inr ?j"
  proof -
    let ?n = "decimalFrom 0 ds"
    let ?l = "int (length (conv @ sep'))"
    have m: "maxAlloc < maxInt" "1 < maxInt" by (simp_all add: maxInt_def maxAlloc_def)
    have "1 \<le> ?l" by (simp add: assms(3))
    then have le: "?n \<le> ?l * ?n" using assms(10) by (simp add: mult_le_cancel_right1)
    have a: "\<not> maxInt < ?n" using assms(11) le m by linarith
    have b: "\<not> (1 < ?n \<and> maxInt < ?l * ?n)" using assms(11) m by linarith
    have c: "\<not> (1 < ?n \<and> maxAlloc < ?l * ?n)" using assms(11) by linarith
    have z: "?n \<noteq> 0" using assms(10) by simp
    show ?thesis
      unfolding expansion_cases [OF rm0] g1 g3 so using a b c z by simp
  qed
  have o: "ordered 0 (length suf) ms" unfolding ms_def by (rule allMatches_ordered)
  have rms: "\<forall>m\<in>set ms. repeatMatch suf m" unfolding ms_def using allMatches_repeatPat by blast
  have op: "ordered 0 (length pre) mp" unfolding mp_def by (rule allMatches_ordered)
  have rmp: "\<forall>m\<in>set mp. repeatMatch pre m" unfolding mp_def using allMatches_repeatPat by blast
  have ne: "pre @ occ \<noteq> []" and la: "last (pre @ occ) \<noteq> CHR ''%''" by (simp_all add: occ_def)
  have tail: "expandLoop s vs (int (k + Suc k3)) (p @ ?j)
              = bindP (processPrintFmt suf) (\<lambda>t. Inr ((p @ ?j) @ t))" for p
    unfolding vs_def
    using expandLoop_shift [OF o _ rms ne la, of "p @ ?j" "[]"]
    by (simp add: processPrintFmt_loop ms_def s_def k_def len_occ add.commute)
  have step: "expandLoop s (submatchIndex 3 (k, k + Suc k3, cs) # vs) (int k) p
              = bindP (processPrintFmt suf) (\<lambda>t. Inr (p @ ?j @ t))" for p
  proof -
    have "expandLoop s (submatchIndex 3 (k, k + Suc k3, cs) # vs) (int k) p
          = expandLoop s vs (int (k + Suc k3)) (p @ take (k - k) (drop k s) @ ?j)"
      unfolding expandLoop_step [OF rm0 order_refl] using nesc ex by (simp add: bindP_def)
    also have "\<dots> = expandLoop s vs (int (k + Suc k3)) (p @ ?j)" by simp
    finally show ?thesis using tail [of p] by simp
  qed
  have rm0': "repeatMatch (pre @ occ @ suf) (length pre, k + Suc k3, cs)"
    using rm0 by (simp add: s_def k_def)
  have "processPrintFmt s
        = expandLoop (pre @ occ @ suf)
            (map (submatchIndex 3) mp @ submatchIndex 3 (length pre, k + Suc k3, cs) # vs) (int 0) []"
    unfolding processPrintFmt_loop am sh vs_def by (simp add: s_def k_def)
  also have "\<dots> = bindP (expandLoop pre (map (submatchIndex 3) mp) (int 0) [])
                     (\<lambda>p. expandLoop (pre @ occ @ suf)
                             (submatchIndex 3 (length pre, k + Suc k3, cs) # vs) (int (length pre)) p)"
    by (rule expandLoop_prefix [OF op le0 rmp rm0'])
  also have "expandLoop pre (map (submatchIndex 3) mp) (int 0) [] = processPrintFmt pre"
    by (simp add: processPrintFmt_loop mp_def)
  also have "(\<lambda>p. expandLoop (pre @ occ @ suf)
                     (submatchIndex 3 (length pre, k + Suc k3, cs) # vs) (int (length pre)) p)
             = (\<lambda>p. bindP (processPrintFmt suf) (\<lambda>t. Inr (p @ ?j @ t)))"
    using step by (simp add: s_def k_def)
  finally show ?thesis unfolding s' .
qed

theorem repeat_shorthand_expands_witness:
  "matchAt ''%02x4#'' 0 \<and>
   processPrintFmt ''%02x4#'' = Inr ''%02x %02x %02x %02x'' \<and>
   matchAt ''%02x,3#'' 0 \<and>
   processPrintFmt ''%02x,3#'' = Inr ''%02x,%02x,%02x'' \<and>
   matchAt ''%d 5 %x3#'' 5 \<and>
   processPrintFmt ''%d 5 %x3#'' = Inr ''%d 5 %x %x %x'' \<and>
   matchAt ''100%% %d3#'' 6 \<and>
   processPrintFmt ''100%% %d3#'' = Inr ''100%% %d %d %d'' \<and>
   matchAt ''%d: %02x4#'' 4 \<and>
   processPrintFmt ''%d: %02x4#'' = Inr ''%d: %02x %02x %02x %02x'' \<and>
   matchAt ''%%d3# %x2#!'' 6 \<and>
   processPrintFmt ''%%d3# %x2#!'' = Inr ''%%d3# %x %x!'' \<and>
   matchAt ''%d2#-%x,3#'' 5 \<and>
   processPrintFmt ''%d2#-%x,3#'' = Inr ''%d %d-%x,%x,%x''"
proof -
  have d: "decimalFrom 0 ''2'' = 2" "decimalFrom 0 ''3'' = 3" "decimalFrom 0 ''4'' = 4"
    by (simp_all add: decimalFrom_def digitVal_def)
  have p0: "processPrintFmt [] = Inr []" by code_simp
  have p1: "processPrintFmt ''%d 5 '' = Inr ''%d 5 ''" by code_simp
  have p2: "processPrintFmt ''100%% '' = Inr ''100%% ''" by code_simp
  have p3: "processPrintFmt ''%d: '' = Inr ''%d: ''" by code_simp
  have p4: "processPrintFmt ''%%d3# '' = Inr ''%%d3# ''" by code_simp
  have p5: "processPrintFmt ''!'' = Inr ''!''" by code_simp
  have p6: "processPrintFmt ''%d2#-'' = Inr ''%d %d-''" by code_simp
  have m1: "matchAt ([] @ ''%02x'' @ [] @ ''4'' @ ''#'' @ []) (length [])" by code_simp
  have e1: "processPrintFmt ([] @ ''%02x'' @ [] @ ''4'' @ ''#'' @ [])
      = bindP (processPrintFmt []) (\<lambda>p. bindP (processPrintFmt [])
          (\<lambda>t. Inr (p @ joinCopies (nat (decimalFrom 0 ''4'')) ''%02x'' '' '' @ t)))"
    by (rule repeat_shorthand_expands [where mods = "''02''" and l = "CHR ''x''", OF m1])
       (simp_all add: isDigit_def d maxAlloc_def)
  have r1: "processPrintFmt ''%02x4#'' = Inr ''%02x %02x %02x %02x''"
    using e1 by (simp add: p0 p1 p2 p3 p4 p5 p6 d bindP_def joinCopies_def numeral_nat)
  have a1: "matchAt ''%02x4#'' 0" by code_simp
  have m2: "matchAt ([] @ ''%02x'' @ '','' @ ''3'' @ ''#'' @ []) (length [])" by code_simp
  have e2: "processPrintFmt ([] @ ''%02x'' @ '','' @ ''3'' @ ''#'' @ [])
      = bindP (processPrintFmt []) (\<lambda>p. bindP (processPrintFmt [])
          (\<lambda>t. Inr (p @ joinCopies (nat (decimalFrom 0 ''3'')) ''%02x'' '','' @ t)))"
    by (rule repeat_shorthand_expands [where mods = "''02''" and l = "CHR ''x''", OF m2])
       (simp_all add: isDigit_def d maxAlloc_def)
  have r2: "processPrintFmt ''%02x,3#'' = Inr ''%02x,%02x,%02x''"
    using e2 by (simp add: p0 p1 p2 p3 p4 p5 p6 d bindP_def joinCopies_def numeral_nat)
  have a2: "matchAt ''%02x,3#'' 0" by code_simp
  have m3: "matchAt (''%d 5 '' @ ''%x'' @ [] @ ''3'' @ ''#'' @ []) (length ''%d 5 '')" by code_simp
  have e3: "processPrintFmt (''%d 5 '' @ ''%x'' @ [] @ ''3'' @ ''#'' @ [])
      = bindP (processPrintFmt ''%d 5 '') (\<lambda>p. bindP (processPrintFmt [])
          (\<lambda>t. Inr (p @ joinCopies (nat (decimalFrom 0 ''3'')) ''%x'' '' '' @ t)))"
    by (rule repeat_shorthand_expands [where mods = "[]" and l = "CHR ''x''", OF m3])
       (simp_all add: isDigit_def d maxAlloc_def)
  have r3: "processPrintFmt ''%d 5 %x3#'' = Inr ''%d 5 %x %x %x''"
    using e3 by (simp add: p0 p1 p2 p3 p4 p5 p6 d bindP_def joinCopies_def numeral_nat)
  have a3: "matchAt ''%d 5 %x3#'' 5" by code_simp
  have m4: "matchAt (''100%% '' @ ''%d'' @ [] @ ''3'' @ ''#'' @ []) (length ''100%% '')" by code_simp
  have e4: "processPrintFmt (''100%% '' @ ''%d'' @ [] @ ''3'' @ ''#'' @ [])
      = bindP (processPrintFmt ''100%% '') (\<lambda>p. bindP (processPrintFmt [])
          (\<lambda>t. Inr (p @ joinCopies (nat (decimalFrom 0 ''3'')) ''%d'' '' '' @ t)))"
    by (rule repeat_shorthand_expands [where mods = "[]" and l = "CHR ''d''", OF m4])
       (simp_all add: isDigit_def d maxAlloc_def)
  have r4: "processPrintFmt ''100%% %d3#'' = Inr ''100%% %d %d %d''"
    using e4 by (simp add: p0 p1 p2 p3 p4 p5 p6 d bindP_def joinCopies_def numeral_nat)
  have a4: "matchAt ''100%% %d3#'' 6" by code_simp
  have m5: "matchAt (''%d: '' @ ''%02x'' @ [] @ ''4'' @ ''#'' @ []) (length ''%d: '')" by code_simp
  have e5: "processPrintFmt (''%d: '' @ ''%02x'' @ [] @ ''4'' @ ''#'' @ [])
      = bindP (processPrintFmt ''%d: '') (\<lambda>p. bindP (processPrintFmt [])
          (\<lambda>t. Inr (p @ joinCopies (nat (decimalFrom 0 ''4'')) ''%02x'' '' '' @ t)))"
    by (rule repeat_shorthand_expands [where mods = "''02''" and l = "CHR ''x''", OF m5])
       (simp_all add: isDigit_def d maxAlloc_def)
  have r5: "processPrintFmt ''%d: %02x4#'' = Inr ''%d: %02x %02x %02x %02x''"
    using e5 by (simp add: p0 p1 p2 p3 p4 p5 p6 d bindP_def joinCopies_def numeral_nat)
  have a5: "matchAt ''%d: %02x4#'' 4" by code_simp
  have m6: "matchAt (''%%d3# '' @ ''%x'' @ [] @ ''2'' @ ''#'' @ ''!'') (length ''%%d3# '')" by code_simp
  have e6: "processPrintFmt (''%%d3# '' @ ''%x'' @ [] @ ''2'' @ ''#'' @ ''!'')
      = bindP (processPrintFmt ''%%d3# '') (\<lambda>p. bindP (processPrintFmt ''!'')
          (\<lambda>t. Inr (p @ joinCopies (nat (decimalFrom 0 ''2'')) ''%x'' '' '' @ t)))"
    by (rule repeat_shorthand_expands [where mods = "[]" and l = "CHR ''x''", OF m6])
       (simp_all add: isDigit_def d maxAlloc_def)
  have r6: "processPrintFmt ''%%d3# %x2#!'' = Inr ''%%d3# %x %x!''"
    using e6 by (simp add: p0 p1 p2 p3 p4 p5 p6 d bindP_def joinCopies_def numeral_nat)
  have a6: "matchAt ''%%d3# %x2#!'' 6" by code_simp
  have m7: "matchAt (''%d2#-'' @ ''%x'' @ '','' @ ''3'' @ ''#'' @ []) (length ''%d2#-'')" by code_simp
  have e7: "processPrintFmt (''%d2#-'' @ ''%x'' @ '','' @ ''3'' @ ''#'' @ [])
      = bindP (processPrintFmt ''%d2#-'') (\<lambda>p. bindP (processPrintFmt [])
          (\<lambda>t. Inr (p @ joinCopies (nat (decimalFrom 0 ''3'')) ''%x'' '','' @ t)))"
    by (rule repeat_shorthand_expands [where mods = "[]" and l = "CHR ''x''", OF m7])
       (simp_all add: isDigit_def d maxAlloc_def)
  have r7: "processPrintFmt ''%d2#-%x,3#'' = Inr ''%d %d-%x,%x,%x''"
    using e7 by (simp add: p0 p1 p2 p3 p4 p5 p6 d bindP_def joinCopies_def numeral_nat)
  have a7: "matchAt ''%d2#-%x,3#'' 5" by code_simp
  from a1 r1 a2 r2 a3 r3 a4 r4 a5 r5 a6 r6 a7 r7 show ?thesis by (intro conjI)
qed

text \<open>
  C6 as stated fails: a count of zero ends in the panic of the slice expression; a
  shorthand directly after \<^verbatim>\<open>%\<close> is copied as it is; a shorthand after an earlier
  directive is not expanded by itself when the match starts at the earlier directive
  and takes the text between as the separator; and a count too large for the repetition
  ends in the panic of \<^verbatim>\<open>strings.Repeat\<close> or of the allocation.
\<close>

theorem zero_count_or_escaped_not_expanded:
  "processPrintFmt ''%d0#'' = Inl (SliceBoundsOutOfRange (- 1)) \<and>
   processPrintFmt ''%%d3#'' = Inr ''%%d3#'' \<and>
   processPrintFmt ''%d and %x3#'' = Inr ''%d and %x%d and %x%d'' \<and>
   \<not> matchAt ''%d and %x3#'' 7 \<and>
   processPrintFmt ''%d9223372036854775807#'' = Inl RepeatCountOverflow \<and>
   processPrintFmt ''%d3074457345618258602#'' = Inl MakesliceLenOutOfRange"
  by code_simp

text \<open>
  C3, at the failing input: two directives that touch. The template has no repeat
  shorthand and is returned unchanged, both of its directives are live, and the count
  is 1, because the first match has consumed the character that the pattern wants in
  front of the second directive. With a layout of two fields the program stops on the
  field count mismatch.
\<close>

theorem adjacent_directives_counted_once:
  "processPrintFmt ''%d%d'' = Inr ''%d%d'' \<and>
   liveDirectives ''%d%d'' = 2 \<and>
   countPrintFmtSpec ''%d%d'' = 1 \<and>
   main (plain ''C2'' ''%d%d'') (Inr \<lparr>bytes = [1, 2], failure = None\<rparr>)
     = Some ([PrintlnPanic (FieldsNotMatch 2 1)], 1)"
  by code_simp

subsection \<open>The program\<close>

lemma generatePrintFmt_zero: "generatePrintFmt 0 '' '' = Inl (SliceBoundsOutOfRange (- 1))"
  by (simp add: generatePrintFmt_def repeatWithSep_def stringsRepeat_def bindP_def goSlice_def
        maxInt_def)

text \<open>
  C10: when the layout compiles to no field and no template is given, the default
  template is generated for zero fields: \<^verbatim>\<open>repeatWithSep\<close> slices one character off the
  empty string, the panic is recovered in \<^verbatim>\<open>main\<close>, which prints it and exits with
  status 1, before any input is read.
\<close>

theorem zero_fields_default_template_panics:
  assumes "parseBinaryFmtSpec (binaryFmt opt) = Inr ([], rs)"
    and "printFmt opt = []" and "\<not> printVersion opt"
  shows "generatePrintFmt 0 '' '' = Inl (SliceBoundsOutOfRange (- 1)) \<and>
         main opt (Inr rd) = Some ([PrintlnPanic (SliceBoundsOutOfRange (- 1))], 1)"
  using assms generatePrintFmt_zero by (simp add: main_def prepare_def bindP_def)

theorem zero_fields_default_template_panics_witness:
  "parseBinaryFmtSpec (binaryFmt (plain [] [])) = Inr ([], 0) \<and>
   printFmt (plain [] []) = [] \<and> \<not> printVersion (plain [] []) \<and>
   main (plain [] []) (Inr \<lparr>bytes = [1, 2, 3], failure = None\<rparr>)
     = Some ([PrintlnPanic (SliceBoundsOutOfRange (- 1))], 1)"
proof -
  have p: "parseBinaryFmtSpec (binaryFmt (plain [] [])) = Inr ([], 0)"
    by (simp add: plain_def parseBinaryFmtSpec_def appendLoop_eq wrap64_def)
  have f: "printFmt (plain [] []) = []" and v: "\<not> printVersion (plain [] [])"
    by (simp_all add: plain_def)
  from zero_fields_default_template_panics [OF p f v] p f v show ?thesis by simp
qed

lemma scanSpec_panics:
  "scanSpec s st = Inl e \<Longrightarrow> e = RepeatWithoutSpecifier \<or> (\<exists>c. e = SpecifierNotSupported c)"
proof (induction s st rule: scanSpec.induct)
  case (1 st)
  then show ?case by simp
next
  case (2 b bs fd rs rn pd)
  show ?case
  proof (cases "descCharMap b")
    case None
    with 2 show ?thesis by (auto split: if_splits)
  next
    case (Some desc)
    with 2 show ?thesis by (auto split: if_splits prod.splits)
  qed
qed

lemma parseBinaryFmtSpec_panics:
  "parseBinaryFmtSpec s = Inl e \<Longrightarrow> e = RepeatWithoutSpecifier \<or> (\<exists>c. e = SpecifierNotSupported c)"
  using scanSpec_panics [of s "([], 0, 0, \<lparr>typeId = noType, size = - 1\<rparr>)" e]
  by (auto simp: parseBinaryFmtSpec_def split: sum.splits)

lemma repeatEnd_hash: "repeatEnd r = Some k \<Longrightarrow> CHR ''#'' \<in> set r"
proof -
  assume a: "repeatEnd r = Some k"
  obtain k1 k2 k3 k4 where "k = (k1, k2, k3, k4)" by (cases k)
  with a repeatEnd_Some(5,7) [of r k1 k2 k3 k4] show ?thesis by (metis nth_mem)
qed

lemma no_hash_no_match:
  assumes "CHR ''#'' \<notin> set s"
  shows "allMatches repeatPat s pos prev = []"
proof (cases "pos \<le> length s")
  case False
  then show ?thesis by (simp add: allMatches.simps [of _ s pos])
next
  case True
  have "run repeatPat (pos + j, drop j (drop pos s), []) = []" for j
  proof -
    have "CHR ''#'' \<notin> set (drop j (drop pos s))"
      using assms by (meson in_set_dropD)
    then have "repeatEnd (drop j (drop pos s)) = None"
      using repeatEnd_hash by (cases "repeatEnd (drop j (drop pos s))") auto
    then show ?thesis by (simp add: run_repeatPat)
  qed
  then have "search repeatPat pos (drop pos s) = None" by (simp add: search_None)
  with True show ?thesis by (simp add: allMatches.simps [of _ s pos])
qed

lemma processPrintFmt_no_hash: "CHR ''#'' \<notin> set s \<Longrightarrow> processPrintFmt s = Inr s"
  by (simp add: processPrintFmt_def findAllStringSubmatchIndex_def no_hash_no_match)

lemma count_default_tail:
  "drop pos s = concat (replicate k '' %02x'') \<Longrightarrow> length (allMatches countPat s pos prev) = k"
proof (induction k arbitrary: pos prev)
  case 0
  show ?case
  proof (cases "pos \<le> length s")
    case False
    then show ?thesis by (simp add: allMatches.simps [of _ s pos])
  next
    case True
    have "drop pos s = []" using 0 by simp
    then have "search countPat pos (drop pos s) = None"
      by (simp add: countPat_def specRe_def)
    with True show ?thesis by (simp add: allMatches.simps [of _ s pos])
  qed
next
  case (Suc k)
  let ?tl = "concat (replicate k '' %02x'')"
  have d: "drop pos s = '' %02x'' @ ?tl" using Suc.prems by simp
  then have le: "pos \<le> length s" by (metis drop_all append_is_Nil_conv list.distinct(1) nat_le_linear)
  have "search countPat pos (drop pos s) = Some (pos, pos + 5, [(1, pos, pos + 5)])"
    unfolding d by (simp add: countPat_def specRe_def)
  moreover have "drop (pos + 5) s = ?tl"
  proof -
    have "drop (pos + 5) s = drop 5 (drop pos s)" by (simp add: add.commute)
    then show ?thesis by (simp add: d)
  qed
  ultimately show ?case
    using le Suc.IH [of "pos + 5"] by (simp add: allMatches.simps [of _ s pos])
qed

lemma count_default:
  assumes "0 < n"
  shows "countPrintFmtSpec (joinCopies n ''%02x'' '' '') = n"
proof -
  define s where "s = ''%02x'' @ concat (replicate (n - 1) '' %02x'')"
  have j: "joinCopies n ''%02x'' '' '' = s" by (simp add: joinCopies_def s_def)
  have f: "search countPat 0 (drop 0 s) = Some (0, 4, [(1, 0, 4)])"
    by (simp add: countPat_def specRe_def s_def)
  have t: "length (allMatches countPat s 4 4) = n - 1"
    by (rule count_default_tail) (simp add: s_def)
  have "allMatches countPat s 0 (- 1) = (0, 4, [(1, 0, 4)]) # allMatches countPat s 4 4"
    using f by (simp add: allMatches.simps [of countPat s 0])
  then have "length (allMatches countPat s 0 (- 1)) = Suc (n - 1)"
    using t by simp
  then show ?thesis
    using assms unfolding countPrintFmtSpec_def findAllStringIndex_def j by simp
qed

lemma generatePrintFmt_cases:
  "generatePrintFmt (int n) '' '' =
     (if n = 0 then Inl (SliceBoundsOutOfRange (- 1))
      else if maxInt < 5 * int n then Inl RepeatCountOverflow
      else if maxAlloc < 5 * int n then Inl MakesliceLenOutOfRange
      else Inr (joinCopies n ''%02x'' '' ''))"
proof -
  have "n = 1 \<Longrightarrow> \<not> maxInt < 5 * int n \<and> \<not> maxAlloc < 5 * int n"
    by (simp add: maxInt_def maxAlloc_def)
  moreover have "n \<noteq> 0 \<Longrightarrow> n \<noteq> 1 \<Longrightarrow> 1 < int n" by simp
  ultimately show ?thesis
    using repeatWithSep_cases [of "int n" "'' ''" "''%02x''"]
    by (cases "n = 0"; cases "n = 1") (simp_all add: generatePrintFmt_def)
qed

lemma joinCopies_no_hash: "CHR ''#'' \<notin> set (joinCopies n ''%02x'' '' '')"
  by (auto simp: joinCopies_def split: if_splits)

lemma live_default_tail: "liveFrom False (concat (replicate k '' %02x'')) = k"
  by (induction k) (simp_all add: specEnd_def)

lemma live_default: "0 < n \<Longrightarrow> liveDirectives (joinCopies n ''%02x'' '' '') = n"
  by (simp add: liveDirectives_def joinCopies_def specEnd_def live_default_tail)

text \<open>
  C7: when the layout compiles to the fields \<open>fd\<close> and no template is given, the
  default template, whenever one is generated, is left as it is by the expansion and has
  exactly as many counted directives as there are fields, so that the preparation ends
  well; it is generated for every layout of at least one field (as long as its five
  bytes for each field stay within \<^verbatim>\<open>maxAlloc\<close>); and whatever the layout, the default
  path never ends in the field count mismatch.
\<close>

theorem default_template_count:
  assumes "parseBinaryFmtSpec (binaryFmt opt) = Inr (fd, rs)" and "printFmt opt = []"
  shows "(fd \<noteq> [] \<and> 5 * int (length fd) \<le> maxAlloc \<longrightarrow>
            generatePrintFmt (int (length fd)) '' '' = Inr (joinCopies (length fd) ''%02x'' '' '')) \<and>
         (\<forall>t. generatePrintFmt (int (length fd)) '' '' = Inr t \<longrightarrow>
            processPrintFmt t = Inr t \<and> countPrintFmtSpec t = length fd \<and>
            liveDirectives t = length fd \<and> prepare opt = Inr (fd, rs, t @ newline)) \<and>
         (\<forall>a b. prepare opt \<noteq> Inl (FieldsNotMatch a b))"
proof (intro conjI allI impI)
  assume "fd \<noteq> [] \<and> 5 * int (length fd) \<le> maxAlloc"
  then show "generatePrintFmt (int (length fd)) '' '' = Inr (joinCopies (length fd) ''%02x'' '' '')"
    by (simp add: generatePrintFmt_cases maxInt_def maxAlloc_def)
next
  fix t assume g: "generatePrintFmt (int (length fd)) '' '' = Inr t"
  then have t: "t = joinCopies (length fd) ''%02x'' '' ''" and n: "0 < length fd"
    by (auto simp: generatePrintFmt_cases split: if_splits)
  show p: "processPrintFmt t = Inr t"
    unfolding t by (rule processPrintFmt_no_hash [OF joinCopies_no_hash])
  show c: "countPrintFmtSpec t = length fd"
    unfolding t by (rule count_default [OF n])
  show "liveDirectives t = length fd"
    unfolding t by (rule live_default [OF n])
  show "prepare opt = Inr (fd, rs, t @ newline)"
    using assms g p c by (simp add: prepare_def bindP_def)
next
  fix a b
  show "prepare opt \<noteq> Inl (FieldsNotMatch a b)"
  proof (cases "generatePrintFmt (int (length fd)) '' ''")
    case (Inl e)
    then have "e = RepeatCountOverflow \<or> e = MakesliceLenOutOfRange \<or> e = SliceBoundsOutOfRange (- 1)"
      by (auto simp: generatePrintFmt_cases split: if_splits)
    with Inl assms show ?thesis by (auto simp: prepare_def bindP_def)
  next
    case (Inr t)
    then have t: "t = joinCopies (length fd) ''%02x'' '' ''" and n: "0 < length fd"
      by (auto simp: generatePrintFmt_cases split: if_splits)
    have "processPrintFmt t = Inr t"
      unfolding t by (rule processPrintFmt_no_hash [OF joinCopies_no_hash])
    moreover have "countPrintFmtSpec t = length fd"
      unfolding t by (rule count_default [OF n])
    ultimately show ?thesis using Inr assms by (simp add: prepare_def bindP_def)
  qed
qed

theorem default_template_count_witness:
  "parseBinaryFmtSpec (binaryFmt (plain ''sC2'' [])) = Inr ([I16, U8, U8], 4) \<and>
   printFmt (plain ''sC2'' []) = [] \<and>
   [I16, U8, U8] \<noteq> [] \<and> 5 * int (length [I16, U8, U8]) \<le> maxAlloc \<and>
   generatePrintFmt (int (length [I16, U8, U8])) '' '' = Inr ''%02x %02x %02x'' \<and>
   processPrintFmt ''%02x %02x %02x'' = Inr ''%02x %02x %02x'' \<and>
   countPrintFmtSpec ''%02x %02x %02x'' = 3 \<and>
   liveDirectives ''%02x %02x %02x'' = 3 \<and>
   prepare (plain ''sC2'' []) = Inr ([I16, U8, U8], 4, ''%02x %02x %02x'' @ newline)"
proof -
  have p: "parseBinaryFmtSpec (binaryFmt (plain ''sC2'' [])) = Inr ([I16, U8, U8], 4)"
    by (simp add: plain_def parseBinaryFmtSpec_def descCharMap_def isDigit_def wrap64_def
          appendLoop_eq)
  have f: "printFmt (plain ''sC2'' []) = []" by (simp add: plain_def)
  have m: "5 * int (length [I16, U8, U8]) \<le> maxAlloc" by (simp add: maxAlloc_def)
  have j: "joinCopies (length [I16, U8, U8]) ''%02x'' '' '' = ''%02x %02x %02x''"
    by (simp add: joinCopies_def numeral_2_eq_2)
  note w = default_template_count [OF p f]
  from w m j have g: "generatePrintFmt (int (length [I16, U8, U8])) '' '' = Inr ''%02x %02x %02x''"
    by simp
  from w g have "processPrintFmt ''%02x %02x %02x'' = Inr ''%02x %02x %02x'' \<and>
      countPrintFmtSpec ''%02x %02x %02x'' = length [I16, U8, U8] \<and>
      liveDirectives ''%02x %02x %02x'' = length [I16, U8, U8] \<and>
      prepare (plain ''sC2'' []) = Inr ([I16, U8, U8], 4, ''%02x %02x %02x'' @ newline)"
    by blast
  with p f m g show ?thesis by simp
qed

subsection \<open>The record loop\<close>

lemma scanSpec_scanInv: "scanSpec s st = Inr st' \<Longrightarrow> scanInv st \<Longrightarrow> scanInv st'"
proof (induction s arbitrary: st)
  case Nil
  then show ?case by simp
next
  case (Cons b bs)
  obtain fd rs rn pd where st: "st = (fd, rs, rn, pd)" by (cases st)
  from Cons.prems(2) have inv: "noType \<notin> set fd" "rn = 0 \<or> typeId pd \<noteq> noType"
    by (simp_all add: scanInv_def st)
  show ?case
  proof (cases "descCharMap b")
    case None
    with Cons.prems(1) have t: "typeId pd \<noteq> noType"
      and s: "scanSpec bs (fd, rs, wrap64 (wrap64 (wrap64 (rn * 10) + int (of_char b)) - 48), pd) = Inr st'"
      by (auto simp: st split: if_splits)
    show ?thesis
      by (rule Cons.IH [OF s]) (use t inv in \<open>simp add: scanInv_def\<close>)
  next
    case (Some desc)
    note dd = descCharMap_Some [OF Some]
    show ?thesis
    proof (cases "rn = 0")
      case True
      with Cons.prems(1) Some
      have s: "scanSpec bs (fd @ [typeId desc], wrap64 (rs + size desc), 0, desc) = Inr st'"
        by (simp add: st)
      show ?thesis
        by (rule Cons.IH [OF s]) (use inv dd in \<open>simp add: scanInv_def\<close>)
    next
      case False
      let ?fd1 = "appendLoop 0 (wrap64 (rn - 1)) (typeId pd) fd"
      let ?rs1 = "wrap64 (rs + wrap64 (wrap64 (rn - 1) * size pd))"
      from Cons.prems(1) Some False
      have s: "scanSpec bs (?fd1 @ [typeId desc], wrap64 (?rs1 + size desc), 0, desc) = Inr st'"
        by (simp add: st)
      have "noType \<notin> set ?fd1" using inv False by (auto simp: appendLoop_eq)
      then show ?thesis
        by (intro Cons.IH [OF s]) (use dd in \<open>simp add: scanInv_def\<close>)
    qed
  qed
qed

lemma parseBinaryFmtSpec_noType:
  assumes "parseBinaryFmtSpec s = Inr (fd, rs)"
  shows "noType \<notin> set fd"
proof -
  from assms obtain fd' rs' rn' pd'
    where sc: "scanSpec s ([], 0, 0, \<lparr>typeId = noType, size = - 1\<rparr>) = Inr (fd', rs', rn', pd')"
      and fd: "fd = appendLoop 0 (wrap64 (rn' - 1)) (typeId pd') fd'"
    by (auto simp: parseBinaryFmtSpec_def split: sum.splits)
  have "scanInv (fd', rs', rn', pd')"
    by (rule scanSpec_scanInv [OF sc]) (simp add: scanInv_def)
  then have i: "noType \<notin> set fd'" "rn' = 0 \<or> typeId pd' \<noteq> noType"
    by (simp_all add: scanInv_def)
  show ?thesis
  proof (cases "rn' = 0")
    case True
    then show ?thesis using i fd by (simp add: appendLoop_eq wrap64_def)
  next
    case False
    then show ?thesis using i fd by (auto simp: appendLoop_eq)
  qed
qed

lemma width_pos: "t \<noteq> noType \<Longrightarrow> 0 < nat (width t)"
  by (cases t) (simp_all add: width_def)

lemma length_decodeRecord [simp]: "length (decodeRecord fd bs) = length fd"
  by (induction fd arbitrary: bs) simp_all

lemma readFields_full:
  assumes "noType \<notin> set vs" and "length c = recLen vs" and "i + length vs \<le> length data"
  shows "\<exists>g'. readFields vs i \<lparr>bytes = c @ rest, failure = f\<rparr> g data
           = (i + length vs, None,
              take i data @ decodeRecord vs c @ drop (i + length vs) data,
              \<lparr>bytes = rest, failure = f\<rparr>, g')"
  using assms
proof (induction vs arbitrary: i c g data)
  case Nil
  then show ?case by (simp add: recLen_def)
next
  case (Cons v vs)
  let ?w = "nat (width v)"
  let ?x = "IntV v (decode v (take ?w c))"
  from Cons.prems have v: "v \<noteq> noType" and nt: "noType \<notin> set vs"
    and len: "length c = ?w + recLen vs" and i: "i < length data" "Suc i + length vs \<le> length data"
    by (auto simp: recLen_def)
  have rf: "readFull \<lparr>bytes = c @ rest, failure = f\<rparr> ?w
            = (Inr (take ?w c), \<lparr>bytes = drop ?w c @ rest, failure = f\<rparr>)"
    using len by (simp add: readFull_def)
  have l': "length (drop ?w c) = recLen vs" using len by simp
  have prem: "Suc i + length vs \<le> length (data[i := ?x])" using i by simp
  from Cons.IH [OF nt l' prem, where g = "g(v := decode v (take ?w c))"]
  obtain g' where ih: "readFields vs (Suc i) \<lparr>bytes = drop ?w c @ rest, failure = f\<rparr>
        (g(v := decode v (take ?w c))) (data[i := ?x])
      = (Suc i + length vs, None,
         take (Suc i) (data[i := ?x]) @ decodeRecord vs (drop ?w c)
           @ drop (Suc i + length vs) (data[i := ?x]),
         \<lparr>bytes = rest, failure = f\<rparr>, g')"
    by blast
  have t: "take (Suc i) (data[i := ?x]) = take i data @ [?x]"
    using i by (simp add: take_Suc_conv_app_nth)
  have d: "drop (Suc i + length vs) (data[i := ?x]) = drop (Suc (i + length vs)) data"
    by simp
  show ?case using v rf ih t d by simp
qed

lemma readFields_partial:
  assumes "noType \<notin> set vs" and "n < length vs"
    and "length p = recLen (take n vs) + r" and "r < nat (width (vs ! n))"
    and "i + length vs \<le> length data"
  shows "\<exists>data' rd' g'. readFields vs i \<lparr>bytes = p, failure = f\<rparr> g data
           = (i + n, Some (endError f r), data', rd', g') \<and>
           take (i + n) data' = take i data @ decodeRecord (take n vs) p"
  using assms
proof (induction n arbitrary: vs i p g data)
  case 0
  then obtain v vs' where vs: "vs = v # vs'" by (cases vs) auto
  with 0 have v: "v \<noteq> noType" and r: "length p = r" "r < nat (width v)"
    by (auto simp: recLen_def)
  then have "readFull \<lparr>bytes = p, failure = f\<rparr> (nat (width v))
             = (Inl (endError f r), \<lparr>bytes = [], failure = f\<rparr>)"
    by (auto simp: readFull_def endError_def split: option.splits)
  with v vs show ?case by simp
next
  case (Suc n)
  then obtain v vs' where vs: "vs = v # vs'" by (cases vs) auto
  let ?w = "nat (width v)"
  let ?x = "IntV v (decode v (take ?w p))"
  from Suc.prems vs have v: "v \<noteq> noType" and nt: "noType \<notin> set vs'" and n: "n < length vs'"
    and len: "length p = ?w + recLen (take n vs') + r" and r: "r < nat (width (vs' ! n))"
    and i: "i < length data" "Suc i + length vs' \<le> length data"
    by (auto simp: recLen_def)
  have rf: "readFull \<lparr>bytes = p, failure = f\<rparr> ?w
            = (Inr (take ?w p), \<lparr>bytes = drop ?w p, failure = f\<rparr>)"
    using len by (simp add: readFull_def)
  have l': "length (drop ?w p) = recLen (take n vs') + r" using len by simp
  have prem: "Suc i + length vs' \<le> length (data[i := ?x])" using i by simp
  from Suc.IH [OF nt n l' r prem, where g = "g(v := decode v (take ?w p))"]
  obtain data' rd' g' where ih: "readFields vs' (Suc i) \<lparr>bytes = drop ?w p, failure = f\<rparr>
        (g(v := decode v (take ?w p))) (data[i := ?x])
      = (Suc i + n, Some (endError f r), data', rd', g')"
    and tk: "take (Suc i + n) data' = take (Suc i) (data[i := ?x]) @ decodeRecord (take n vs') (drop ?w p)"
    by blast
  have t: "take (Suc i) (data[i := ?x]) = take i data @ [?x]"
    using i by (simp add: take_Suc_conv_app_nth)
  show ?case using v rf ih tk t vs by simp
qed

lemma readLoop_stream:
  assumes "noType \<notin> set fd" and "\<forall>c\<in>set chunks. length c = recLen fd" and "n < length fd"
    and "length part = recLen (take n fd) + r" and "r < nat (width (fd ! n))"
    and "length data = length fd"
  shows "\<exists>data' st'.
           readLoop opt pf fd rs \<lparr>bytes = concat chunks @ part, failure = f\<rparr> data st
             = Some (n, endError f r, data', st') \<and>
           take n data' = decodeRecord (take n fd) part \<and>
           stdout st' = stdout st @ fullLines opt pf fd rs (recordCnt st) (offSet st) chunks \<and>
           recordCnt st' = countAfter (recordCnt st) (length chunks) \<and>
           offSet st' = offsetAfter rs (offSet st) (length chunks)"
  using assms(2,6)
proof (induction chunks arbitrary: data st)
  case Nil
  from readFields_partial [OF assms(1,3,4,5), of 0 data f "scratch st"] Nil.prems(2)
  obtain data' rd' g' where rf: "readFields fd 0 \<lparr>bytes = part, failure = f\<rparr> (scratch st) data
      = (n, Some (endError f r), data', rd', g')"
    and tk: "take n data' = decodeRecord (take n fd) part"
    by auto
  have "readLoop opt pf fd rs \<lparr>bytes = concat [] @ part, failure = f\<rparr> data st
        = Some (n, endError f r, data', st\<lparr>scratch := g'\<rparr>)"
    by (subst readLoop.simps) (simp add: readData_def rf)
  with tk show ?case by simp
next
  case (Cons c cs)
  from Cons.prems(1) have lc: "length c = recLen fd" and lcs: "\<forall>c\<in>set cs. length c = recLen fd"
    by simp_all
  let ?d1 = "decodeRecord fd c"
  from readFields_full [OF assms(1) lc, of 0 data "concat cs @ part" f "scratch st"] Cons.prems(2)
  obtain g' where rf: "readFields fd 0 \<lparr>bytes = c @ concat cs @ part, failure = f\<rparr> (scratch st) data
      = (length fd, None, ?d1, \<lparr>bytes = concat cs @ part, failure = f\<rparr>, g')"
    by auto
  let ?st1 = "(printData opt pf ?d1 (st\<lparr>scratch := g', recordCnt := wrap64 (recordCnt st + 1)\<rparr>))
                \<lparr>offSet := wrap64 (offSet st + rs)\<rparr>"
  have step: "readLoop opt pf fd rs \<lparr>bytes = concat (c # cs) @ part, failure = f\<rparr> data st
              = readLoop opt pf fd rs \<lparr>bytes = concat cs @ part, failure = f\<rparr> ?d1 ?st1"
    by (subst readLoop.simps) (simp add: readData_def rf)
  from Cons.IH [OF lcs, of ?d1 ?st1]
  obtain data' st' where ih:
    "readLoop opt pf fd rs \<lparr>bytes = concat cs @ part, failure = f\<rparr> ?d1 ?st1
       = Some (n, endError f r, data', st')"
    "take n data' = decodeRecord (take n fd) part"
    "stdout st' = stdout ?st1 @ fullLines opt pf fd rs (recordCnt ?st1) (offSet ?st1) cs"
    "recordCnt st' = countAfter (recordCnt ?st1) (length cs)"
    "offSet st' = offsetAfter rs (offSet ?st1) (length cs)"
    by auto
  have s1: "stdout ?st1 = stdout st @ lineOf opt pf (wrap64 (recordCnt st + 1)) (offSet st) ?d1"
    "recordCnt ?st1 = wrap64 (recordCnt st + 1)" "offSet ?st1 = wrap64 (offSet st + rs)"
    by (simp_all add: printData_def lineOf_def)
  show ?case
    unfolding step using ih by (simp add: s1)
qed

lemma prepare_noType:
  assumes "prepare opt = Inr (fd, rs, pf)"
  shows "noType \<notin> set fd"
proof -
  from assms obtain rs' where "parseBinaryFmtSpec (binaryFmt opt) = Inr (fd, rs')"
    by (auto simp: prepare_def bindP_def split: sum.splits if_splits)
  then show ?thesis by (rule parseBinaryFmtSpec_noType)
qed

lemma main_stream:
  assumes "prepare opt = Inr (fd, rs, pf)" and "\<not> printVersion opt"
    and "\<forall>c\<in>set chunks. length c = recLen fd" and "n < length fd"
    and "length part = recLen (take n fd) + r" and "r < nat (width (fd ! n))"
  shows "main opt (Inr \<lparr>bytes = concat chunks @ part, failure = f\<rparr>)
         = Some (fullLines opt pf fd rs 0 0 chunks
                 @ (if n \<noteq> 0
                    then lineOf opt pf (countAfter 0 (length chunks)) (offsetAfter rs 0 (length chunks))
                           (decodeRecord (take n fd) part)
                    else if printOffset opt
                      then [Printf (offsetFmt @ newline) [GoInt (offsetAfter rs 0 (length chunks))]]
                      else [])
                 @ (if endError f r \<noteq> EOF
                    then (if endError f r = ErrUnexpectedEOF then [PrintlnEOF]
                          else [PrintlnReadErr (endError f r)])
                    else []), 0)"
proof -
  have nt: "noType \<notin> set fd" by (rule prepare_noType [OF assms(1)])
  from readLoop_stream [OF nt assms(3,4,5,6), of "replicate (length fd) Nil" opt pf rs f initState]
  obtain data' st' where rl:
    "readLoop opt pf fd rs \<lparr>bytes = concat chunks @ part, failure = f\<rparr>
       (replicate (length fd) Nil) initState = Some (n, endError f r, data', st')"
    and tk: "take n data' = decodeRecord (take n fd) part"
    and so: "stdout st' = fullLines opt pf fd rs 0 0 chunks"
    and rc: "recordCnt st' = countAfter 0 (length chunks)"
    and os: "offSet st' = offsetAfter rs 0 (length chunks)"
    by (auto simp: initState_def)
  have "finalLines opt pf (n, endError f r, data', st')
        = fullLines opt pf fd rs 0 0 chunks
          @ (if n \<noteq> 0
             then lineOf opt pf (countAfter 0 (length chunks)) (offsetAfter rs 0 (length chunks))
                    (decodeRecord (take n fd) part)
             else if printOffset opt
               then [Printf (offsetFmt @ newline) [GoInt (offsetAfter rs 0 (length chunks))]]
               else [])
          @ (if endError f r \<noteq> EOF
             then (if endError f r = ErrUnexpectedEOF then [PrintlnEOF]
                   else [PrintlnReadErr (endError f r)])
             else [])"
    by (simp add: finalLines_def printData_def lineOf_def tk so rc os)
  then show ?thesis using assms(1,2) rl by (simp add: main_def)
qed

text \<open>
  C1 (amended): when the stream ends without a read failure after between 1 and
  \<open>length fd - 1\<close> fields of a record, the program prints every full record, then calls
  \<^verbatim>\<open>Printf\<close> with the whole template and exactly the values decoded so far, and returns
  normally. It prints the line "EOF: final data not enough for the last field" only when
  the stream ends inside a field (\<open>r\<close> bytes of the next field are there, \<open>0 < r\<close>); when
  the stream ends between two fields it reports nothing.
\<close>

theorem partial_record_at_end_of_stream:
  assumes "prepare opt = Inr (fd, rs, pf)" and "\<not> printVersion opt"
    and "\<forall>c\<in>set chunks. length c = recLen fd" and "0 < n" and "n < length fd"
    and "length part = recLen (take n fd) + r" and "r < nat (width (fd ! n))"
  shows "main opt (Inr \<lparr>bytes = concat chunks @ part, failure = None\<rparr>)
         = Some (fullLines opt pf fd rs 0 0 chunks
                 @ lineOf opt pf (countAfter 0 (length chunks)) (offsetAfter rs 0 (length chunks))
                     (decodeRecord (take n fd) part)
                 @ (if r = 0 then [] else [PrintlnEOF]), 0)"
  using main_stream [OF assms(1,2,3,5,6,7), of None] assms(4)
  by (simp add: endError_def)

text \<open>
  C5 (amended): when a read fails with an error other than the end of the stream, the
  loop stops at that read and the last line printed is "While reading data:" with the
  error; the program still prints the values of the fields of the current record
  decoded before the failure, when there is at least one, as it does at the end of the
  stream (with no such field it prints the offset line when offsets are asked for).
\<close>

theorem read_failure_reported:
  assumes "prepare opt = Inr (fd, rs, pf)" and "\<not> printVersion opt"
    and "\<forall>c\<in>set chunks. length c = recLen fd" and "n < length fd"
    and "length part = recLen (take n fd) + r" and "r < nat (width (fd ! n))"
  shows "main opt (Inr \<lparr>bytes = concat chunks @ part, failure = Some msg\<rparr>)
         = Some (fullLines opt pf fd rs 0 0 chunks
                 @ (if n \<noteq> 0
                    then lineOf opt pf (countAfter 0 (length chunks)) (offsetAfter rs 0 (length chunks))
                           (decodeRecord (take n fd) part)
                    else if printOffset opt
                      then [Printf (offsetFmt @ newline) [GoInt (offsetAfter rs 0 (length chunks))]]
                      else [])
                 @ [PrintlnReadErr (ErrOther msg)], 0)"
  using main_stream [OF assms, of "Some msg"] by (simp add: endError_def)

theorem partial_record_at_end_of_stream_witness:
  "prepare (plain ''Cs'' []) = Inr ([U8, I16], 3, ''%02x %02x'' @ newline) \<and>
   \<not> printVersion (plain ''Cs'' []) \<and>
   list_all (\<lambda>c. length c = recLen [U8, I16]) [[1, 2, 3 :: byte]] \<and>
   0 < (1 :: nat) \<and> 1 < length [U8, I16] \<and>
   length [4, 5 :: byte] = recLen (take 1 [U8, I16]) + 1 \<and>
   1 < nat (width ([U8, I16] ! 1)) \<and>
   main (plain ''Cs'' []) (Inr \<lparr>bytes = [1, 2, 3, 4, 5], failure = None\<rparr>)
     = Some ([Printf (''%02x %02x'' @ newline) [IntV U8 1, IntV I16 770],
              Printf (''%02x %02x'' @ newline) [IntV U8 4],
              PrintlnEOF], 0)"
proof -
  have p: "prepare (plain ''Cs'' []) = Inr ([U8, I16], 3, ''%02x %02x'' @ newline)"
    by code_simp
  have v: "\<not> printVersion (plain ''Cs'' [])" by (simp add: plain_def)
  have c: "\<forall>c\<in>set [[1, 2, 3 :: byte]]. length c = recLen [U8, I16]"
    by (simp add: recLen_def width_def)
  have l: "length [4, 5 :: byte] = recLen (take 1 [U8, I16]) + 1"
    by (simp add: recLen_def width_def)
  have r: "1 < nat (width ([U8, I16] ! 1))" by (simp add: width_def)
  have d: "decode U8 [1] = 1" "decode I16 [2, 3] = 770" "decode U8 [4] = 4"
    by (simp_all add: decode_def leUint_def signed_def)
  from partial_record_at_end_of_stream [OF p v c _ _ l r]
  have "main (plain ''Cs'' []) (Inr \<lparr>bytes = concat [[1, 2, 3]] @ [4, 5], failure = None\<rparr>)
        = Some (fullLines (plain ''Cs'' []) (''%02x %02x'' @ newline) [U8, I16] 3 0 0 [[1, 2, 3]]
                @ lineOf (plain ''Cs'' []) (''%02x %02x'' @ newline) (countAfter 0 (length [[1, 2, 3 :: byte]]))
                    (offsetAfter 3 0 (length [[1, 2, 3 :: byte]])) (decodeRecord (take 1 [U8, I16]) [4, 5])
                @ (if (1 :: nat) = 0 then [] else [PrintlnEOF]), 0)"
    by simp
  then have "main (plain ''Cs'' []) (Inr \<lparr>bytes = [1, 2, 3, 4, 5], failure = None\<rparr>)
     = Some ([Printf (''%02x %02x'' @ newline) [IntV U8 1, IntV I16 770],
              Printf (''%02x %02x'' @ newline) [IntV U8 4],
              PrintlnEOF], 0)"
    by (simp add: lineOf_def plain_def width_def d)
  with p v show ?thesis by (simp add: list_all_iff recLen_def width_def)
qed

text \<open>
  C1 as stated fails on its own example: for the layout \<^verbatim>\<open>C2\<close> and five bytes the
  stream ends between two fields, the read returns the plain end of file, and nothing is
  reported after the partial record; the partial line is written with the marker of the
  missing operand.
\<close>

theorem partial_record_without_report:
  "main (plain ''C2'' []) (Inr \<lparr>bytes = [1, 2, 3, 4, 5], failure = None\<rparr>)
     = Some ([Printf (''%02x %02x'' @ newline) [IntV U8 1, IntV U8 2],
              Printf (''%02x %02x'' @ newline) [IntV U8 3, IntV U8 4],
              Printf (''%02x %02x'' @ newline) [IntV U8 5]], 0) \<and>
   written [Printf (''%02x %02x'' @ newline) [IntV U8 1, IntV U8 2],
            Printf (''%02x %02x'' @ newline) [IntV U8 3, IntV U8 4],
            Printf (''%02x %02x'' @ newline) [IntV U8 5]]
     = Some (''01 02'' @ newline @ ''03 04'' @ newline @ ''05 %!x(MISSING)'' @ newline)"
  by code_simp

theorem read_failure_reported_witness:
  "prepare (plain ''s2'' []) = Inr ([I16, I16], 4, ''%02x %02x'' @ newline) \<and>
   \<not> printVersion (plain ''s2'' []) \<and>
   list_all (\<lambda>c. length c = recLen [I16, I16]) [[1, 2, 3, 4 :: byte]] \<and>
   0 < length [I16, I16] \<and>
   length [5 :: byte] = recLen (take 0 [I16, I16]) + 1 \<and>
   1 < nat (width ([I16, I16] ! 0)) \<and>
   main (plain ''s2'' []) (Inr \<lparr>bytes = [1, 2, 3, 4, 5], failure = Some ''input/output error''\<rparr>)
     = Some ([Printf (''%02x %02x'' @ newline) [IntV I16 513, IntV I16 1027],
              PrintlnReadErr (ErrOther ''input/output error'')], 0)"
proof -
  have p: "prepare (plain ''s2'' []) = Inr ([I16, I16], 4, ''%02x %02x'' @ newline)"
    by code_simp
  have v: "\<not> printVersion (plain ''s2'' [])" by (simp add: plain_def)
  have c: "\<forall>c\<in>set [[1, 2, 3, 4 :: byte]]. length c = recLen [I16, I16]"
    by (simp add: recLen_def width_def)
  have l: "length [5 :: byte] = recLen (take 0 [I16, I16]) + 1"
    by (simp add: recLen_def width_def)
  have r: "1 < nat (width ([I16, I16] ! 0))" by (simp add: width_def)
  have d: "decode I16 [1, 2] = 513" "decode I16 [3, 4] = 1027"
    by (simp_all add: decode_def leUint_def signed_def)
  from read_failure_reported [OF p v c _ l r, of "''input/output error''"]
  have "main (plain ''s2'' []) (Inr \<lparr>bytes = [1, 2, 3, 4, 5], failure = Some ''input/output error''\<rparr>)
     = Some ([Printf (''%02x %02x'' @ newline) [IntV I16 513, IntV I16 1027],
              PrintlnReadErr (ErrOther ''input/output error'')], 0)"
    by (simp add: lineOf_def plain_def width_def d)
  with p v show ?thesis by (simp add: list_all_iff recLen_def width_def)
qed

text \<open>
  C5 as stated fails: after a read failure in the second field the value of the first
  field is printed before the report.
\<close>

theorem partial_record_printed_on_read_failure:
  "main (plain ''C2'' []) (Inr \<lparr>bytes = [1, 2, 3], failure = Some ''input/output error''\<rparr>)
     = Some ([Printf (''%02x %02x'' @ newline) [IntV U8 1, IntV U8 2],
              Printf (''%02x %02x'' @ newline) [IntV U8 3],
              PrintlnReadErr (ErrOther ''input/output error'')], 0)"
  by code_simp

end
